theory Spec2Isabelle
  imports Main "HOL-Library.Word"
begin

section \<open>Strings of the host language\<close>

text \<open>
  A JavaScript string is a sequence of 16-bit code units; \<open>length\<close>, \<open>slice\<close>, \<open>split\<close>,
  \<open>includes\<close> and \<open>trim\<close> work on code units. \<open>js\<close> turns a literal of the theory into
  such a string.
\<close>

type_synonym code_unit = "16 word"

type_synonym js_string = "code_unit list"

definition js :: "string \<Rightarrow> js_string" where
  "js s = map (\<lambda>c. of_nat (of_char c)) s"

definition newline :: code_unit where
  "newline = 10"

text \<open>
  \<open>String.prototype.trim\<close> strips white space and line terminators from both ends: tab,
  line feed, vertical tab, form feed, carriage return, space, no-break space, the Ogham
  space mark, the spaces U+2000 to U+200A, the line and paragraph separators, the narrow
  no-break space, the medium mathematical space, the ideographic space and the byte order
  mark.
\<close>

definition is_ws :: "code_unit \<Rightarrow> bool" where
  "is_ws u =
     (u \<in> set [0x0009, 0x000A, 0x000B, 0x000C, 0x000D, 0x0020, 0x00A0, 0x1680,
                0x2028, 0x2029, 0x202F, 0x205F, 0x3000, 0xFEFF]
      \<or> (0x2000 \<le> u \<and> u \<le> 0x200A))"

definition trim :: "js_string \<Rightarrow> js_string" where
  "trim s = rev (dropWhile is_ws (rev (dropWhile is_ws s)))"

text \<open>\<open>s.slice(-4)\<close>: the last four code units, or all of a shorter string.\<close>

definition slice_last4 :: "js_string \<Rightarrow> js_string" where
  "slice_last4 s = drop (length s - 4) s"

text \<open>\<open>s.includes(t)\<close>: \<open>t\<close> occurs in \<open>s\<close> as a contiguous run.\<close>

fun starts_with :: "js_string \<Rightarrow> js_string \<Rightarrow> bool" where
  "starts_with s [] = True"
| "starts_with [] (t # ts) = False"
| "starts_with (c # cs) (t # ts) = (c = t \<and> starts_with cs ts)"

fun str_includes :: "js_string \<Rightarrow> js_string \<Rightarrow> bool" where
  "str_includes [] t = (t = [])"
| "str_includes (c # cs) t = (starts_with (c # cs) t \<or> str_includes cs t)"

text \<open>
  \<open>toLowerCase\<close>, as far as it produces ASCII: the letters A to Z, the Kelvin sign (to
  \<open>k\<close>) and the capital I with dot above (to \<open>i\<close> and a combining dot). Every other code
  unit is kept: JavaScript lowers other letters too, but to letters outside ASCII, and
  the result is only searched for ASCII patterns.
\<close>

definition lower_unit :: "code_unit \<Rightarrow> js_string" where
  "lower_unit u =
     (if 0x41 \<le> u \<and> u \<le> 0x5A then [u + 0x20]
      else if u = 0x212A then [0x6B]
      else if u = 0x0130 then [0x69, 0x0307]
      else [u])"

definition toLowerCase :: "js_string \<Rightarrow> js_string" where
  "toLowerCase s = concat (map lower_unit s)"

text \<open>\<open>s.split('\n')\<close>: always at least one piece.\<close>

fun split_lines :: "js_string \<Rightarrow> js_string list" where
  "split_lines [] = [[]]"
| "split_lines (c # cs) =
     (if c = newline then [] # split_lines cs
      else (case split_lines cs of
              [] \<Rightarrow> [[c]]
            | l # ls \<Rightarrow> (c # l) # ls))"

text \<open>\<open>xs.join('\n')\<close>.\<close>

fun join_lines :: "js_string list \<Rightarrow> js_string" where
  "join_lines [] = []"
| "join_lines [x] = x"
| "join_lines (x # y # ys) = x @ [newline] @ join_lines (y # ys)"

section \<open>Data model (types.ts)\<close>

text \<open>
  The interfaces of the repository's type declarations. Field names carry a prefix where
  the source's name is reserved in Isabelle (\<open>id\<close>, \<open>value\<close>, \<open>text\<close>). The optional
  boolean flags of a chat message are booleans: an absent flag reads as false wherever
  the source tests it.
\<close>

record Persona =
  persona_id :: js_string
  persona_name :: js_string
  persona_role :: js_string

record ChatMessage =
  personaId :: js_string
  personaName :: js_string
  personaRole :: js_string
  msg_text :: js_string
  isThinking :: bool
  isOrchestrator :: bool
  isUser :: bool

datatype ApiKeyStatus = Unchecked | Checking | Active | RateLimited | Invalid

record ApiKey =
  key_id :: js_string
  key_value :: js_string
  key_status :: ApiKeyStatus

section \<open>Credential pool (class ApiKeyManager, services/geminiService.ts)\<close>

record ApiKeyManager =
  mgr_keys :: "ApiKey list"
  currentIndex :: nat

text \<open>The constructor's filter: status active and a value that is not blank.\<close>

definition key_usable :: "ApiKey \<Rightarrow> bool" where
  "key_usable k = (key_status k = Active \<and> trim (key_value k) \<noteq> [])"

definition new_ApiKeyManager :: "ApiKey list \<Rightarrow> ApiKeyManager" where
  "new_ApiKeyManager ks = \<lparr>mgr_keys = filter key_usable ks, currentIndex = 0\<rparr>"

definition getAvailableKeyCount :: "ApiKeyManager \<Rightarrow> nat" where
  "getAvailableKeyCount m = length (mgr_keys m)"

text \<open>
  \<open>getNextKey\<close> returns the key under the cursor and the manager with the cursor moved.
  \<open>None\<close> stands for both \<open>null\<close> (no keys) and \<open>undefined\<close> (a read past the end of the
  array); the only caller tests the result for truthiness.
\<close>

definition getNextKey :: "ApiKeyManager \<Rightarrow> ApiKey option \<times> ApiKeyManager" where
  "getNextKey m =
     (if getAvailableKeyCount m = 0 then (None, m)
      else
        ((if currentIndex m < length (mgr_keys m) then Some (mgr_keys m ! currentIndex m)
          else None),
         m\<lparr>currentIndex := (currentIndex m + 1) mod length (mgr_keys m)\<rparr>))"

section \<open>Generation gateway (generateContentWithRetry, services/geminiService.ts)\<close>

text \<open>
  The backend is outside the program. One backend invocation either resolves with the
  response text or rejects with an error; \<open>Failure\<close> carries the text that line 104
  classifies (\<open>e.message\<close>, or the JSON rendering of \<open>e\<close>).
\<close>

datatype backend_result = Success js_string | Failure js_string

text \<open>
  What the gateway and the tick can throw: the \<open>AbortError\<close> of line 89, a plain \<open>Error\<close>
  (message), and \<open>RateLimitError\<close> (message, failingKey). A property read on \<open>undefined\<close> in
  the tick is a plain error as well; the engine's wording of it is not modelled.
\<close>

datatype thrown = AbortError | PlainError js_string | RateLimitError js_string js_string

definition isRateLimitError :: "js_string \<Rightarrow> bool" where
  "isRateLimitError msg =
     (let errorMessage = toLowerCase msg
      in str_includes errorMessage (js ''429'') \<or> str_includes errorMessage (js ''rate limit'')
         \<or> str_includes errorMessage (js ''resource_exhausted''))"

text \<open>
  The function is asynchronous: it suspends at each backend invocation. \<open>gen_call\<close> is the
  suspended loop (its counter, its bound and the key of the request in flight).
\<close>

record gen_call =
  keyAttempt :: nat
  totalKeys :: nat
  apiKey :: js_string

datatype gen_status = Return js_string | Throw thrown | Await gen_call

text \<open>
  The \<open>for\<close> loop from its head, at counter \<open>keyAttempt\<close>, up to the next backend invocation
  or to the throw after the loop. The argument \<open>aborted\<close> is \<open>signal.aborted\<close>.
\<close>

function gen_loop :: "bool \<Rightarrow> nat \<Rightarrow> nat \<Rightarrow> ApiKeyManager \<Rightarrow> (thrown + gen_call) \<times> ApiKeyManager" where
  "gen_loop aborted i n m =
     (if i < n then
        (case getNextKey m of
           (None, m') \<Rightarrow> gen_loop aborted (i + 1) n m'
         | (Some k, m') \<Rightarrow>
             if aborted then (Inl AbortError, m')
             else (Inr \<lparr>keyAttempt = i, totalKeys = n, apiKey = key_value k\<rparr>, m'))
      else
        (case getNextKey m of
           (k, m') \<Rightarrow>
             (Inl (RateLimitError
                    (js ''All API keys are currently rate-limited. Please wait a while or add a new key.'')
                    (case k of None \<Rightarrow> [] | Some k' \<Rightarrow> key_value k')),
              m')))"
  by pat_completeness auto
termination
  by (relation "measure (\<lambda>(aborted, i, n, m). n - i)") auto

declare gen_loop.simps [simp del]

definition gen_begin :: "bool \<Rightarrow> ApiKeyManager \<Rightarrow> (thrown + gen_call) \<times> ApiKeyManager" where
  "gen_begin aborted m =
     (let totalKeys = getAvailableKeyCount m
      in if totalKeys = 0
         then (Inl (PlainError (js ''No active API keys available. Please check your keys' statuses.'')), m)
         else gen_loop aborted 0 totalKeys m)"

text \<open>The backend invocation of the suspended loop settles with \<open>r\<close>.\<close>

definition gen_resume :: "backend_result \<Rightarrow> bool \<Rightarrow> gen_call \<Rightarrow> ApiKeyManager \<Rightarrow> gen_status \<times> ApiKeyManager" where
  "gen_resume r aborted c m =
     (case r of
        Success t \<Rightarrow> (Return t, m)
      | Failure msg \<Rightarrow>
          if isRateLimitError msg then
            (case gen_loop aborted (keyAttempt c + 1) (totalKeys c) m of
               (Inl e, m') \<Rightarrow> (Throw e, m')
             | (Inr c', m') \<Rightarrow> (Await c', m'))
          else
            (Throw (RateLimitError
                     (js ''API call failed for key ...'' @ slice_last4 (apiKey c) @ js ''. It might be invalid.'')
                     (apiKey c)),
             m))"

text \<open>
  A whole call against a script of backend outcomes, one per attempt, with the signal
  constant during the call. The result lists the keys drawn for the attempts, in order.
  A script that ends while the call is suspended leaves \<open>Await\<close>.
\<close>

fun gen_run :: "backend_result list \<Rightarrow> bool \<Rightarrow> gen_call \<Rightarrow> ApiKeyManager \<Rightarrow> gen_status \<times> ApiKeyManager \<times> js_string list" where
  "gen_run [] aborted c m = (Await c, m, [apiKey c])"
| "gen_run (r # rs) aborted c m =
     (case gen_resume r aborted c m of
        (Await c', m') \<Rightarrow> (case gen_run rs aborted c' m' of (s, m'', ks) \<Rightarrow> (s, m'', apiKey c # ks))
      | (s, m') \<Rightarrow> (s, m', [apiKey c]))"

definition generateContentWithRetry :: "backend_result list \<Rightarrow> bool \<Rightarrow> ApiKeyManager \<Rightarrow> gen_status \<times> ApiKeyManager \<times> js_string list" where
  "generateContentWithRetry rs aborted m =
     (case gen_begin aborted m of
        (Inl e, m') \<Rightarrow> (Throw e, m', [])
      | (Inr c, m') \<Rightarrow> gen_run rs aborted c m')"

section \<open>Meeting controller (component App)\<close>

record MeetingState =
  agenda :: "js_string list"
  currentAgendaIndex :: nat
  currentSpeakerIndex :: int
  userIntervention :: "js_string option"

text \<open>The three generation requests of the orchestrator, with the arguments they are called with.\<close>

datatype request =
    AgendaRequest js_string
  | TurnRequest Persona js_string "ChatMessage list" js_string "js_string option"
  | SummaryRequest js_string "ChatMessage list"

text \<open>
  The values \<open>runMeetingStep\<close> closes over (its \<open>useCallback\<close> dependencies): they are those
  of the render in which the tick started, also after the tick's awaits.
\<close>

record closure =
  cl_meetingTopic :: js_string
  cl_personas :: "Persona list"
  cl_chatHistory :: "ChatMessage list"
  cl_apiKeys :: "ApiKey list"

text \<open>
  The three mutable objects behind the refs: the meeting state, the gateway (its key
  manager) and the abort controller (\<open>None\<close> for \<open>null\<close>, \<open>Some b\<close> for a controller whose
  \<open>signal.aborted\<close> is \<open>b\<close>). A start installs three new objects; the old ones live on as
  long as a tick of the earlier meeting holds them.
\<close>

record session =
  s_state :: MeetingState
  s_orchestrator :: "ApiKeyManager option"
  s_controller :: "bool option"

text \<open>
  A tick suspended in a generation request. The tick took the state object and the
  gateway from the refs at its entry (lines 176-177): \<open>fl_session\<close> is the number of the
  meeting they belong to. The signal was read from the controller ref when the request
  was issued (lines 183, 203, 227): \<open>fl_signal\<close> is the number of the meeting that
  controller belongs to. The objects the component is mounted with have the number 0, those
  of the first meeting the number 1, and so on.
\<close>

record inflight =
  fl_request :: request
  fl_call :: gen_call
  fl_closure :: closure
  fl_session :: nat
  fl_signal :: nat

text \<open>
  The component's state: the \<open>useState\<close> cells, the objects the three refs point to now,
  the objects of the earlier meetings (\<open>retired\<close>, in the order of their starts), the
  suspended ticks, and the ids whose 60 second cooldown timer is pending. The meeting of
  the moment has the number \<open>length retired\<close>.
\<close>

record app_state =
  personas :: "Persona list"
  meetingTopic :: js_string
  apiKeys :: "ApiKey list"
  chatHistory :: "ChatMessage list"
  isMeetingRunning :: bool
  isWaitingForAI :: bool
  app_error :: "js_string option"
  abortController :: "bool option"
  orchestratorRef :: "ApiKeyManager option"
  meetingStateRef :: MeetingState
  retired :: "session list"
  outstanding :: "inflight list"
  cooldowns :: "js_string list"

text \<open>Reading and writing the objects of meeting \<open>i\<close>.\<close>

definition state_of :: "nat \<Rightarrow> app_state \<Rightarrow> MeetingState" where
  "state_of i st = (if i < length (retired st) then s_state (retired st ! i) else meetingStateRef st)"

definition orchestrator_of :: "nat \<Rightarrow> app_state \<Rightarrow> ApiKeyManager option" where
  "orchestrator_of i st =
     (if i < length (retired st) then s_orchestrator (retired st ! i) else orchestratorRef st)"

definition controller_of :: "nat \<Rightarrow> app_state \<Rightarrow> bool option" where
  "controller_of i st =
     (if i < length (retired st) then s_controller (retired st ! i) else abortController st)"

definition set_state :: "nat \<Rightarrow> MeetingState \<Rightarrow> app_state \<Rightarrow> app_state" where
  "set_state i ms st =
     (if i < length (retired st)
      then st\<lparr>retired := (retired st)[i := (retired st ! i)\<lparr>s_state := ms\<rparr>]\<rparr>
      else st\<lparr>meetingStateRef := ms\<rparr>)"

definition set_orchestrator :: "nat \<Rightarrow> ApiKeyManager \<Rightarrow> app_state \<Rightarrow> app_state" where
  "set_orchestrator i m st =
     (if i < length (retired st)
      then st\<lparr>retired := (retired st)[i := (retired st ! i)\<lparr>s_orchestrator := Some m\<rparr>]\<rparr>
      else st\<lparr>orchestratorRef := Some m\<rparr>)"

definition createOrchestratorMessage :: "js_string \<Rightarrow> ChatMessage" where
  "createOrchestratorMessage t =
     \<lparr>personaId = js ''orchestrator'', personaName = js ''AI Orchestrator'',
      personaRole = js ''Meeting Moderator'', msg_text = t,
      isThinking = False, isOrchestrator = True, isUser = False\<rparr>"

definition thinkingMessage :: "Persona \<Rightarrow> ChatMessage" where
  "thinkingMessage p =
     \<lparr>personaId = persona_id p, personaName = persona_name p, personaRole = persona_role p,
      msg_text = [], isThinking = True, isOrchestrator = False, isUser = False\<rparr>"

definition finalMessage :: "Persona \<Rightarrow> js_string \<Rightarrow> ChatMessage" where
  "finalMessage p responseText = (thinkingMessage p)\<lparr>msg_text := responseText, isThinking := False\<rparr>"

definition userMessage :: "js_string \<Rightarrow> ChatMessage" where
  "userMessage t =
     \<lparr>personaId = js ''user'', personaName = js ''You'', personaRole = js ''Facilitator'',
      msg_text = t, isThinking = False, isOrchestrator = False, isUser = True\<rparr>"

text \<open>The part of the turn prompt that carries the interjection (generateTurn, lines 148-150).\<close>

definition interventionPrompt :: "js_string option \<Rightarrow> js_string" where
  "interventionPrompt ui =
     (case ui of
        None \<Rightarrow> []
      | Some t \<Rightarrow>
          if t = [] then []
          else [newline] @ js ''**IMPORTANT: The human facilitator has just interjected with the following instruction or question. Make sure your response addresses it directly:** \"'' @ t @ js ''\"'' @ [newline])"

text \<open>The status updaters of lines 243 and 245.\<close>

definition set_status :: "js_string \<Rightarrow> ApiKeyStatus \<Rightarrow> ApiKey list \<Rightarrow> ApiKey list" where
  "set_status kid s ks = map (\<lambda>k. if key_id k = kid then k\<lparr>key_status := s\<rparr> else k) ks"

definition not_thinking :: "ChatMessage list \<Rightarrow> ChatMessage list" where
  "not_thinking h = filter (\<lambda>m. \<not> isThinking m) h"

text \<open>The \<open>catch\<close> block of \<open>runMeetingStep\<close> (lines 234-255).\<close>

definition catch_handler :: "closure \<Rightarrow> thrown \<Rightarrow> app_state \<Rightarrow> app_state" where
  "catch_handler cl e st =
     (let st1 =
        (case e of
           AbortError \<Rightarrow> st\<lparr>chatHistory := not_thinking (chatHistory st)\<rparr>
         | RateLimitError msg fk \<Rightarrow>
             (let st' = st\<lparr>app_error := Some (js ''An error occurred: '' @ msg)\<rparr>
              in case find (\<lambda>k. key_value k = fk) (cl_apiKeys cl) of
                   None \<Rightarrow> st'
                 | Some failingKey \<Rightarrow>
                     st'\<lparr>apiKeys := set_status (key_id failingKey) RateLimited (apiKeys st'),
                         cooldowns := cooldowns st' @ [key_id failingKey]\<rparr>)
         | PlainError msg \<Rightarrow> st\<lparr>app_error := Some (js ''An unexpected error occurred: '' @ msg)\<rparr>)
      in st1\<lparr>chatHistory := not_thinking (chatHistory st1),
             isMeetingRunning := False, isWaitingForAI := False\<rparr>)"

text \<open>
  A tick of meeting \<open>i\<close> issues a generation request: the gateway it holds runs up to its
  first backend invocation, with the signal of the controller the ref points to now. It
  either throws into the \<open>catch\<close> block or leaves the tick suspended. A \<open>null\<close> controller
  makes \<open>abortControllerRef.current!.signal\<close> throw. The tick has checked at its entry that
  a gateway is installed, so the branch without one is never taken.
\<close>

definition invoke :: "closure \<Rightarrow> request \<Rightarrow> nat \<Rightarrow> app_state \<Rightarrow> app_state" where
  "invoke cl req i st =
     (case abortController st of
        None \<Rightarrow> catch_handler cl (PlainError (js ''TypeError'')) st
      | Some aborted \<Rightarrow>
          (case orchestrator_of i st of
             None \<Rightarrow> st
           | Some m \<Rightarrow>
               (case gen_begin aborted m of
                  (Inl e, m') \<Rightarrow> catch_handler cl e (set_orchestrator i m' st)
                | (Inr c, m') \<Rightarrow>
                    (set_orchestrator i m' st)
                      \<lparr>outstanding := outstanding st @
                         [\<lparr>fl_request = req, fl_call = c, fl_closure = cl,
                           fl_session = i, fl_signal = length (retired st)\<rparr>]\<rparr>)))"

text \<open>
  Lines 191-227, for a tick of meeting \<open>i\<close>: from the choice of the next speaker to the
  turn or summary request.
\<close>

definition discuss :: "closure \<Rightarrow> nat \<Rightarrow> app_state \<Rightarrow> app_state" where
  "discuss cl i st =
     (let state = state_of i st;
          wrap = (int (length (cl_personas cl)) \<le> currentSpeakerIndex state + 1);
          nextSpeakerIndex = (if wrap then 0 else currentSpeakerIndex state + 1);
          nextAgendaIndex = (if wrap then currentAgendaIndex state + 1 else currentAgendaIndex state)
      in if length (agenda state) \<le> nextAgendaIndex then
           invoke cl (SummaryRequest (cl_meetingTopic cl) (cl_chatHistory cl)) i
             (st\<lparr>chatHistory := chatHistory st @
                    [createOrchestratorMessage
                       (js ''The discussion is complete. The AI Orchestrator will now summarize.'')],
                 isWaitingForAI := True\<rparr>)
         else
           (let st1 = (if currentAgendaIndex state < nextAgendaIndex
                       then st\<lparr>chatHistory := chatHistory st @
                              [createOrchestratorMessage
                                 (js ''Let's now discuss: **'' @ trim (agenda state ! nextAgendaIndex)
                                  @ js ''**'')]\<rparr>
                       else st);
                st2 = (set_state i
                         (state\<lparr>currentAgendaIndex := nextAgendaIndex,
                                currentSpeakerIndex := nextSpeakerIndex\<rparr>) st1)
                        \<lparr>isWaitingForAI := True\<rparr>
            in if 0 \<le> nextSpeakerIndex \<and> nextSpeakerIndex < int (length (cl_personas cl)) then
                 (let currentPersona = cl_personas cl ! nat nextSpeakerIndex
                  in invoke cl
                       (TurnRequest currentPersona (cl_meetingTopic cl) (cl_chatHistory cl)
                          (agenda state ! nextAgendaIndex) (userIntervention state)) i
                       (st2\<lparr>chatHistory := chatHistory st2 @ [thinkingMessage currentPersona]\<rparr>))
               else catch_handler cl (PlainError (js ''TypeError'')) st2))"

definition closure_of :: "app_state \<Rightarrow> closure" where
  "closure_of st =
     \<lparr>cl_meetingTopic = meetingTopic st, cl_personas = personas st,
      cl_chatHistory = chatHistory st, cl_apiKeys = apiKeys st\<rparr>"

text \<open>
  \<open>runMeetingStep\<close> from its entry to its first await (or to its end, if it does not await).
  The tick holds the objects of the meeting of the moment.
\<close>

definition runMeetingStep :: "app_state \<Rightarrow> app_state" where
  "runMeetingStep st =
     (if \<not> isMeetingRunning st \<or> orchestratorRef st = None then st
      else if abortController st = Some True then
        st\<lparr>isMeetingRunning := False, isWaitingForAI := False,
           chatHistory := chatHistory st @
             [createOrchestratorMessage (js ''The meeting was stopped by the user.'')]\<rparr>
      else if agenda (meetingStateRef st) = [] then
        invoke (closure_of st) (AgendaRequest (meetingTopic st)) (length (retired st))
          (st\<lparr>isWaitingForAI := True\<rparr>)
      else discuss (closure_of st) (length (retired st)) st)"

text \<open>\<open>generateAgenda\<close>'s treatment of the response text (line 129).\<close>

definition agenda_of_text :: "js_string \<Rightarrow> js_string list" where
  "agenda_of_text t = filter (\<lambda>item. 1 < length (trim item)) (split_lines t)"

text \<open>The rest of \<open>runMeetingStep\<close> after the awaited request of the tick \<open>f\<close> returned \<open>t\<close>.\<close>

definition continue_with :: "inflight \<Rightarrow> js_string \<Rightarrow> app_state \<Rightarrow> app_state" where
  "continue_with f t st =
     (case fl_request f of
        AgendaRequest topic \<Rightarrow>
          (let agendaItems = agenda_of_text t
           in discuss (fl_closure f) (fl_session f)
                ((set_state (fl_session f)
                    ((state_of (fl_session f) st)
                       \<lparr>agenda := agendaItems, currentAgendaIndex := 0, currentSpeakerIndex := - 1\<rparr>)
                    st)
                   \<lparr>chatHistory := chatHistory st @
                        [createOrchestratorMessage
                           (js ''**Meeting Agenda:**'' @ [newline] @ join_lines agendaItems)],
                    isWaitingForAI := False\<rparr>))
      | SummaryRequest topic h \<Rightarrow>
          st\<lparr>chatHistory := chatHistory st @
                [createOrchestratorMessage
                   (js ''**Meeting Summary & Action Items:**'' @ [newline] @ t),
                 createOrchestratorMessage (js ''The meeting has concluded.'')],
             isMeetingRunning := False, isWaitingForAI := False\<rparr>
      | TurnRequest p topic h item ui \<Rightarrow>
          (set_state (fl_session f) ((state_of (fl_session f) st)\<lparr>userIntervention := None\<rparr>) st)
            \<lparr>chatHistory := butlast (chatHistory st) @ [finalMessage p t],
             isWaitingForAI := False\<rparr>)"

definition remove_nth :: "nat \<Rightarrow> 'a list \<Rightarrow> 'a list" where
  "remove_nth k xs = take k xs @ drop (Suc k) xs"

text \<open>
  The backend invocation of the \<open>k\<close>-th suspended tick settles. The gateway is the one the
  tick holds, the signal the one its request was given. A suspended tick has its gateway
  and its controller, so the last branch is never taken.
\<close>

definition on_response :: "nat \<Rightarrow> backend_result \<Rightarrow> app_state \<Rightarrow> app_state" where
  "on_response k r st =
     (if k < length (outstanding st) then
        (let f = outstanding st ! k in
         case (orchestrator_of (fl_session f) st, controller_of (fl_signal f) st) of
           (Some m, Some aborted) \<Rightarrow>
             (case gen_resume r aborted (fl_call f) m of
                (Await c, m') \<Rightarrow>
                  (set_orchestrator (fl_session f) m' st)
                    \<lparr>outstanding := (outstanding st)[k := f\<lparr>fl_call := c\<rparr>]\<rparr>
              | (Throw e, m') \<Rightarrow>
                  catch_handler (fl_closure f) e
                    ((set_orchestrator (fl_session f) m' st)
                       \<lparr>outstanding := remove_nth k (outstanding st)\<rparr>)
              | (Return t, m') \<Rightarrow>
                  continue_with f t
                    ((set_orchestrator (fl_session f) m' st)
                       \<lparr>outstanding := remove_nth k (outstanding st)\<rparr>))
         | _ \<Rightarrow> st)
      else st)"

subsection \<open>Handlers\<close>

definition hasActiveKey :: "ApiKey list \<Rightarrow> bool" where
  "hasActiveKey ks = (\<exists>k \<in> set ks. key_status k = Active)"

definition initialMeetingState :: MeetingState where
  "initialMeetingState =
     \<lparr>agenda = [], currentAgendaIndex = 0, currentSpeakerIndex = - 1, userIntervention = None\<rparr>"

text \<open>
  A start that goes through assigns new objects to the three refs; the objects they
  pointed to are kept for the ticks that hold them.
\<close>

definition handleStartMeeting :: "app_state \<Rightarrow> app_state" where
  "handleStartMeeting st =
     (if isMeetingRunning st \<or> \<not> hasActiveKey (apiKeys st) then
        (if \<not> hasActiveKey (apiKeys st)
         then st\<lparr>app_error := Some (js ''Please add and verify at least one active API key to start.'')\<rparr>
         else st)
      else
        st\<lparr>retired := retired st @
               [\<lparr>s_state = meetingStateRef st, s_orchestrator = orchestratorRef st,
                 s_controller = abortController st\<rparr>],
           app_error := None,
           abortController := Some False,
           orchestratorRef := Some (new_ApiKeyManager (apiKeys st)),
           meetingStateRef := initialMeetingState,
           chatHistory :=
             [createOrchestratorMessage
                (js ''The meeting will now begin. The AI Orchestrator is generating an agenda...'')],
           isMeetingRunning := True\<rparr>)"

definition handleStopMeeting :: "app_state \<Rightarrow> app_state" where
  "handleStopMeeting st =
     st\<lparr>abortController := (case abortController st of None \<Rightarrow> None | Some b \<Rightarrow> Some True),
        isMeetingRunning := False, isWaitingForAI := False\<rparr>"

definition handleResetMeeting :: "app_state \<Rightarrow> app_state" where
  "handleResetMeeting st = (handleStopMeeting st)\<lparr>chatHistory := [], app_error := None\<rparr>"

definition handleSendMessage :: "js_string \<Rightarrow> app_state \<Rightarrow> app_state" where
  "handleSendMessage t st =
     (if \<not> isMeetingRunning st \<or> isWaitingForAI st then st
      else st\<lparr>meetingStateRef := (meetingStateRef st)\<lparr>userIntervention := Some t\<rparr>,
              chatHistory := chatHistory st @ [userMessage t]\<rparr>)"

text \<open>The cooldown timer of line 244 fires for the key \<open>kid\<close>.\<close>

definition cooldown_fires :: "js_string \<Rightarrow> app_state \<Rightarrow> app_state" where
  "cooldown_fires kid st =
     st\<lparr>apiKeys := set_status kid Active (apiKeys st), cooldowns := remove1 kid (cooldowns st)\<rparr>"

subsection \<open>The user interface's guards (SettingsPanel, MeetingRoom)\<close>

definition canStartMeeting :: "app_state \<Rightarrow> bool" where
  "canStartMeeting st =
     (0 < length (personas st) \<and> 0 < length (trim (meetingTopic st)) \<and> hasActiveKey (apiKeys st))"

text \<open>The start button: \<open>disabled\<close> unless \<open>canStartMeeting\<close>; a disabled button does nothing.\<close>

definition click_start :: "app_state \<Rightarrow> app_state" where
  "click_start st = (if canStartMeeting st then handleStartMeeting st else st)"

text \<open>The interjection form's \<open>handleSubmit\<close>, with \<open>isEnabled = !isWaitingForAI\<close>.\<close>

definition submit_interjection :: "js_string \<Rightarrow> app_state \<Rightarrow> app_state" where
  "submit_interjection t st =
     (if trim t \<noteq> [] \<and> \<not> isWaitingForAI st then handleSendMessage (trim t) st else st)"

text \<open>The scheduling effect (lines 258-266): a tick is due after the delay in these states only.\<close>

definition tick_enabled :: "app_state \<Rightarrow> bool" where
  "tick_enabled st =
     (isMeetingRunning st \<and> \<not> isWaitingForAI st \<and>
      (chatHistory st = [] \<or> \<not> isThinking (last (chatHistory st))))"

subsection \<open>Events\<close>

text \<open>
  What can happen to the component: the three buttons, a submitted interjection, the
  scheduled tick, the settling of the backend invocation of a suspended tick (named by
  its position among the suspended ticks), and a cooldown timer. \<open>dispatch\<close> is \<open>None\<close>
  where the event cannot occur: the start button is rendered only while no meeting runs,
  the stop button and the interjection form only while one runs, the reset button is
  disabled while one runs, a tick fires only where the effect has scheduled it, and a
  response needs its request in flight.
\<close>

datatype event =
    ClickStart | ClickStop | ClickReset | Submit js_string
  | Tick | Response nat backend_result | Cooldown js_string

definition dispatch :: "event \<Rightarrow> app_state \<Rightarrow> app_state option" where
  "dispatch ev st =
     (case ev of
        ClickStart \<Rightarrow> if isMeetingRunning st then None else Some (click_start st)
      | ClickStop \<Rightarrow> if isMeetingRunning st then Some (handleStopMeeting st) else None
      | ClickReset \<Rightarrow> if isMeetingRunning st then None else Some (handleResetMeeting st)
      | Submit t \<Rightarrow> if isMeetingRunning st then Some (submit_interjection t st) else None
      | Tick \<Rightarrow> if tick_enabled st then Some (runMeetingStep st) else None
      | Response k r \<Rightarrow> if k < length (outstanding st) then Some (on_response k r st) else None
      | Cooldown kid \<Rightarrow> if kid \<in> set (cooldowns st) then Some (cooldown_fires kid st) else None)"

fun run :: "event list \<Rightarrow> app_state \<Rightarrow> app_state option" where
  "run [] st = Some st"
| "run (ev # evs) st = (case dispatch ev st of None \<Rightarrow> None | Some st' \<Rightarrow> run evs st')"

text \<open>The component as mounted, with the settings the user has entered.\<close>

definition mounted :: "Persona list \<Rightarrow> js_string \<Rightarrow> ApiKey list \<Rightarrow> app_state" where
  "mounted ps topic ks =
     \<lparr>personas = ps, meetingTopic = topic, apiKeys = ks, chatHistory = [],
      isMeetingRunning = False, isWaitingForAI = False, app_error = None,
      abortController = None, orchestratorRef = None,
      meetingStateRef = initialMeetingState, retired = [], outstanding = [], cooldowns = []\<rparr>"

section \<open>Notions used in the statements\<close>

text \<open>\<open>n\<close> consecutive calls of \<open>getNextKey\<close>: what they return, and the manager afterwards.\<close>

fun draw :: "nat \<Rightarrow> ApiKeyManager \<Rightarrow> ApiKey option list \<times> ApiKeyManager" where
  "draw 0 m = ([], m)"
| "draw (Suc n) m =
     (case getNextKey m of (k, m') \<Rightarrow> (case draw n m' of (ks, m'') \<Rightarrow> (k # ks, m'')))"

text \<open>
  Consecutive generation calls on one gateway, each against its own script of backend
  outcomes: the statuses they end with, the manager afterwards, and the keys drawn over
  all of them, in order.
\<close>

fun gen_calls :: "backend_result list list \<Rightarrow> bool \<Rightarrow> ApiKeyManager \<Rightarrow> gen_status list \<times> ApiKeyManager \<times> js_string list" where
  "gen_calls [] aborted m = ([], m, [])"
| "gen_calls (rs # rss) aborted m =
     (case generateContentWithRetry rs aborted m of
        (s, m', ks) \<Rightarrow>
          (case gen_calls rss aborted m' of (ss, m'', ks') \<Rightarrow> (s # ss, m'', ks @ ks')))"

text \<open>The cursor stays inside the key list.\<close>

definition mgr_ok :: "ApiKeyManager \<Rightarrow> bool" where
  "mgr_ok m = (mgr_keys m \<noteq> [] \<and> currentIndex m < length (mgr_keys m))"

text \<open>Sample data for the concrete runs.\<close>

definition ex_alice :: Persona where
  "ex_alice = \<lparr>persona_id = js ''1'', persona_name = js ''Alice'', persona_role = js ''Marketing Director''\<rparr>"

definition ex_bob :: Persona where
  "ex_bob = \<lparr>persona_id = js ''2'', persona_name = js ''Bob'', persona_role = js ''Content Creator''\<rparr>"

definition ex_k1 :: ApiKey where
  "ex_k1 = \<lparr>key_id = js ''k1'', key_value = js ''key-1'', key_status = Active\<rparr>"

definition ex_k2 :: ApiKey where
  "ex_k2 = \<lparr>key_id = js ''k2'', key_value = js ''key-2'', key_status = Active\<rparr>"

definition ex_k3 :: ApiKey where
  "ex_k3 = \<lparr>key_id = js ''k3'', key_value = js ''key-3'', key_status = Active\<rparr>"

text \<open>Two active keys with blank values: two spaces; a no-break space and an ideographic space.\<close>

definition ex_blank :: ApiKey where
  "ex_blank = \<lparr>key_id = js ''k0'', key_value = js ''  '', key_status = Active\<rparr>"

definition ex_nbsp :: ApiKey where
  "ex_nbsp = \<lparr>key_id = js ''k9'', key_value = [0x00A0, 0x3000], key_status = Active\<rparr>"

definition ex_agenda_text :: js_string where
  "ex_agenda_text = js ''1. Pricing'' @ [newline] @ js ''2. Timeline''"

text \<open>
  The key lists of all gateways created so far, in the order of their creation (\<open>None\<close>
  where a ref held no gateway): those of the earlier meetings, then the one in use.
\<close>

definition gateway_keys :: "app_state \<Rightarrow> ApiKey list option list" where
  "gateway_keys st =
     map (\<lambda>s. map_option mgr_keys (s_orchestrator s)) (retired st)
     @ [map_option mgr_keys (orchestratorRef st)]"

text \<open>Pending entries of a transcript.\<close>

definition no_pending :: "ChatMessage list \<Rightarrow> bool" where
  "no_pending h = (\<forall>m \<in> set h. \<not> isThinking m)"

definition pending_count :: "ChatMessage list \<Rightarrow> nat" where
  "pending_count h = length (filter isThinking h)"

fun is_turn :: "request \<Rightarrow> bool" where
  "is_turn (TurnRequest p topic h item ui) = True"
| "is_turn (AgendaRequest topic) = False"
| "is_turn (SummaryRequest topic h) = False"

text \<open>The interjection a request carries into its prompt.\<close>

fun req_ui :: "request \<Rightarrow> js_string option" where
  "req_ui (TurnRequest p topic h item ui) = ui"
| "req_ui (AgendaRequest topic) = None"
| "req_ui (SummaryRequest topic h) = None"

text \<open>
  A run is calm when no start is pressed while a tick is suspended: every meeting is
  started after the ticks of the earlier ones have ended.
\<close>

fun calm :: "event list \<Rightarrow> app_state \<Rightarrow> bool" where
  "calm [] st = True"
| "calm (ev # evs) st =
     ((ev = ClickStart \<longrightarrow> outstanding st = [])
      \<and> (case dispatch ev st of None \<Rightarrow> True | Some st' \<Rightarrow> calm evs st'))"

text \<open>
  What holds of the component's state in every calm run: the waiting flag is only set
  while a meeting runs; at most one tick is suspended, and it is a tick of the meeting of
  the moment, with its gateway and its controller; a suspended tick of a stopped meeting
  sees the signal aborted; a running meeting with a suspended tick is waiting; and only
  the last transcript entry can be pending, and only while a turn request is in flight.
\<close>

definition wf_state :: "app_state \<Rightarrow> bool" where
  "wf_state st =
     ((\<not> isMeetingRunning st \<longrightarrow> \<not> isWaitingForAI st)
      \<and> (case outstanding st of
           [] \<Rightarrow> no_pending (chatHistory st)
         | f # fs \<Rightarrow>
             fs = []
             \<and> fl_session f = length (retired st) \<and> fl_signal f = length (retired st)
             \<and> abortController st \<noteq> None \<and> orchestratorRef st \<noteq> None
             \<and> (\<not> isMeetingRunning st \<longrightarrow> abortController st = Some True)
             \<and> (isMeetingRunning st \<longrightarrow> isWaitingForAI st)
             \<and> (if is_turn (fl_request f) then no_pending (butlast (chatHistory st))
                  else no_pending (chatHistory st))))"

text \<open>A stopped meeting with nothing in flight and no pending entry.\<close>

definition settled :: "app_state \<Rightarrow> bool" where
  "settled st = (\<not> isMeetingRunning st \<and> outstanding st = [] \<and> no_pending (chatHistory st))"

text \<open>The entries of a meeting's transcript, and the events of a meeting that runs to its end.\<close>

definition opening_notice :: ChatMessage where
  "opening_notice =
     createOrchestratorMessage
       (js ''The meeting will now begin. The AI Orchestrator is generating an agenda...'')"

definition agenda_notice :: "js_string list \<Rightarrow> ChatMessage" where
  "agenda_notice ag =
     createOrchestratorMessage (js ''**Meeting Agenda:**'' @ [newline] @ join_lines ag)"

definition topic_notice :: "js_string \<Rightarrow> ChatMessage" where
  "topic_notice item =
     createOrchestratorMessage (js ''Let's now discuss: **'' @ trim item @ js ''**'')"

definition complete_notice :: ChatMessage where
  "complete_notice =
     createOrchestratorMessage
       (js ''The discussion is complete. The AI Orchestrator will now summarize.'')"

definition summary_entry :: "js_string \<Rightarrow> ChatMessage" where
  "summary_entry s =
     createOrchestratorMessage (js ''**Meeting Summary & Action Items:**'' @ [newline] @ s)"

definition closing_notice :: ChatMessage where
  "closing_notice = createOrchestratorMessage (js ''The meeting has concluded.'')"

text \<open>
  The entries of agenda topic \<open>i\<close>: the topic's notice, except for the first topic, then one
  turn per persona, in order, with the responses \<open>rs\<close>.
\<close>

definition topic_block :: "Persona list \<Rightarrow> js_string list \<Rightarrow> nat \<Rightarrow> js_string \<Rightarrow> ChatMessage list" where
  "topic_block ps rs i item =
     (if i = 0 then [] else [topic_notice item]) @ map (\<lambda>(p, r). finalMessage p r) (zip ps rs)"

definition expected_transcript :: "Persona list \<Rightarrow> js_string list \<Rightarrow> js_string list list \<Rightarrow> js_string \<Rightarrow> ChatMessage list" where
  "expected_transcript ps ag rss s =
     [opening_notice, agenda_notice ag]
     @ concat (map (\<lambda>i. topic_block ps (rss ! i) i (ag ! i)) [0..<length ag])
     @ [complete_notice, summary_entry s, closing_notice]"

text \<open>
  The start, the first tick, and then every backend invocation succeeding at once: the
  agenda text \<open>a\<close>, the turn responses \<open>rss\<close> (one list per topic) and the summary \<open>s\<close>.
  The first tick goes on from the agenda to the first turn (or to the summary) without a
  new tick; every later request starts with a tick. One tick is suspended at a time, so
  every response is for the suspended tick at position 0.
\<close>

definition meeting_events :: "js_string \<Rightarrow> js_string list list \<Rightarrow> js_string \<Rightarrow> event list" where
  "meeting_events a rss s =
     [ClickStart, Tick, Response 0 (Success a)]
     @ tl (concat (map (\<lambda>r. [Tick, Response 0 (Success r)]) (concat rss @ [s])))"

text \<open>The transcript entries of the turns from turn number \<open>j\<close> on, with the responses \<open>rs\<close>.\<close>

fun turns_text :: "Persona list \<Rightarrow> js_string list \<Rightarrow> nat \<Rightarrow> js_string list \<Rightarrow> ChatMessage list" where
  "turns_text ps ag j [] = []"
| "turns_text ps ag j (r # rs) =
     (if j mod length ps = 0 \<and> j \<noteq> 0 then [topic_notice (ag ! (j div length ps))] else [])
     @ [finalMessage (ps ! (j mod length ps)) r]
     @ turns_text ps ag (Suc j) rs"

text \<open>A running meeting between two ticks, \<open>j\<close> turns done (\<open>j = 0\<close>: the agenda just built).\<close>

definition between_turns :: "Persona list \<Rightarrow> js_string \<Rightarrow> js_string list \<Rightarrow> nat \<Rightarrow> app_state \<Rightarrow> bool" where
  "between_turns ps topic ag j st =
     (personas st = ps \<and> meetingTopic st = topic \<and> isMeetingRunning st
      \<and> abortController st = Some False \<and> outstanding st = []
      \<and> (case orchestratorRef st of None \<Rightarrow> False | Some mg \<Rightarrow> mgr_ok mg)
      \<and> meetingStateRef st =
           \<lparr>agenda = ag,
            currentAgendaIndex = (j - 1) div length ps,
            currentSpeakerIndex = (if j = 0 then - 1 else int ((j - 1) mod length ps)),
            userIntervention = None\<rparr>
      \<and> no_pending (chatHistory st))"

section \<open>Properties of the strings\<close>

lemma of_char_lt: "(of_char c :: nat) < 65536"
proof -
  have "(of_char c :: nat) mod 256 < 256" by simp
  then have "(of_char c :: nat) < 256" by (simp only: of_char_mod_256)
  then show ?thesis by linarith
qed

lemma js_unit_inj: "((of_nat (of_char c) :: 16 word) = of_nat (of_char d)) = (c = d)"
proof
  assume "(of_nat (of_char c) :: 16 word) = of_nat (of_char d)"
  then have "unat (of_nat (of_char c) :: 16 word) = unat (of_nat (of_char d) :: 16 word)" by simp
  then have "(of_char c :: nat) = of_char d"
    using of_char_lt [of c] of_char_lt [of d] by (simp add: unat_of_nat)
  then show "c = d" by simp
qed simp

lemma js_inj [simp]: "(js s = js t) = (s = t)"
proof (induction s arbitrary: t)
  case Nil
  then show ?case by (cases t) (simp_all add: js_def)
next
  case (Cons c s)
  then show ?case by (cases t) (auto simp: js_def js_unit_inj)
qed

lemma js_simps [simp]: "js [] = []" "js s = [] \<longleftrightarrow> s = []" "[] = js s \<longleftrightarrow> s = []"
  by (simp_all add: js_def)

section \<open>Properties of the credential pool\<close>

lemma getNextKey_keys [simp]: "mgr_keys (snd (getNextKey m)) = mgr_keys m"
  by (simp add: getNextKey_def)

lemma getNextKey_ok:
  "mgr_ok m \<Longrightarrow> getNextKey m =
     (Some (mgr_keys m ! currentIndex m),
      m\<lparr>currentIndex := Suc (currentIndex m) mod length (mgr_keys m)\<rparr>)"
  by (simp add: getNextKey_def mgr_ok_def getAvailableKeyCount_def)

lemma getNextKey_mgr_ok: "mgr_ok m \<Longrightarrow> mgr_ok (snd (getNextKey m))"
  by (simp add: getNextKey_def mgr_ok_def getAvailableKeyCount_def)

lemma getNextKey_empty: "mgr_keys m = [] \<Longrightarrow> getNextKey m = (None, m)"
  by (simp add: getNextKey_def getAvailableKeyCount_def)

lemma draw_keys [simp]: "mgr_keys (snd (draw n m)) = mgr_keys m"
proof (induction n arbitrary: m)
  case 0 show ?case by simp
next
  case (Suc n)
  have "mgr_keys (snd (draw n (snd (getNextKey m)))) = mgr_keys m"
    using Suc.IH [of "snd (getNextKey m)"] by simp
  then show ?case by (simp add: split_beta)
qed

lemma draw_ok:
  assumes "mgr_ok m"
  shows "draw n m =
    (map (\<lambda>j. Some (mgr_keys m ! ((currentIndex m + j) mod length (mgr_keys m)))) [0..<n],
     m\<lparr>currentIndex := (currentIndex m + n) mod length (mgr_keys m)\<rparr>)"
  using assms
proof (induction n arbitrary: m)
  case 0
  then show ?case by (simp add: mgr_ok_def)
next
  case (Suc n)
  let ?m' = "m\<lparr>currentIndex := Suc (currentIndex m) mod length (mgr_keys m)\<rparr>"
  have ok': "mgr_ok ?m'" using Suc.prems by (simp add: mgr_ok_def)
  have g: "getNextKey m = (Some (mgr_keys m ! currentIndex m), ?m')"
    using Suc.prems by (rule getNextKey_ok)
  have shift: "map (\<lambda>j. Some (mgr_keys m ! ((Suc (currentIndex m) mod length (mgr_keys m) + j) mod length (mgr_keys m)))) [0..<n]
      = map (\<lambda>j. Some (mgr_keys m ! ((currentIndex m + j) mod length (mgr_keys m)))) [Suc 0..<Suc n]"
    by (simp add: map_Suc_upt [symmetric] mod_simps del: upt_Suc)
  have hd: "mgr_keys m ! currentIndex m = mgr_keys m ! ((currentIndex m + 0) mod length (mgr_keys m))"
    using Suc.prems by (simp add: mgr_ok_def)
  show ?case
    using Suc.IH [OF ok'] g shift hd
    by (simp add: upt_rec [of 0 "Suc n"] mod_simps del: upt_Suc)
qed

lemma draw_empty: "mgr_keys m = [] \<Longrightarrow> draw n m = (replicate n None, m)"
  by (induction n) (simp_all add: getNextKey_empty)

lemma new_mgr_ok: "filter key_usable ks \<noteq> [] \<Longrightarrow> mgr_ok (new_ApiKeyManager ks)"
  by (simp add: mgr_ok_def new_ApiKeyManager_def)

lemma gen_loop_keys [simp]: "mgr_keys (snd (gen_loop ab i n m)) = mgr_keys m"
proof (induction ab i n m rule: gen_loop.induct)
  case (1 aborted i n m)
  have k: "mgr_keys (snd (getNextKey m)) = mgr_keys m" by simp
  obtain r m' where g: "getNextKey m = (r, m')" by (cases "getNextKey m")
  then have k': "mgr_keys m' = mgr_keys m" using k by simp
  show ?case
  proof (cases "i < n")
    case True
    show ?thesis
    proof (cases r)
      case None
      have "mgr_keys (snd (gen_loop aborted (i + 1) n m')) = mgr_keys m'"
        using "1.IH" [OF True _ refl, of m'] g None by simp
      then show ?thesis using True g None k' by (subst gen_loop.simps) simp
    next
      case (Some k)
      then show ?thesis using True g k' by (subst gen_loop.simps) simp
    qed
  next
    case False
    then show ?thesis using g k' by (subst gen_loop.simps) simp
  qed
qed

lemma gen_loop_keysD: "gen_loop ab i n m = (r, m') \<Longrightarrow> mgr_keys m' = mgr_keys m"
  using gen_loop_keys [of ab i n m] by simp

lemma gen_begin_keys [simp]: "mgr_keys (snd (gen_begin ab m)) = mgr_keys m"
  by (simp add: gen_begin_def Let_def)

lemma gen_begin_keysD: "gen_begin ab m = (r, m') \<Longrightarrow> mgr_keys m' = mgr_keys m"
  using gen_begin_keys [of ab m] by simp

lemma gen_resume_keysD: "gen_resume r ab c m = (s, m') \<Longrightarrow> mgr_keys m' = mgr_keys m"
  by (auto simp: gen_resume_def split: backend_result.splits prod.splits sum.splits if_splits
      dest: gen_loop_keysD)

lemma gateway_keys_upd [simp]:
  "gateway_keys (st\<lparr>chatHistory := h\<rparr>) = gateway_keys st"
  "gateway_keys (st\<lparr>isWaitingForAI := w\<rparr>) = gateway_keys st"
  "gateway_keys (st\<lparr>isMeetingRunning := r\<rparr>) = gateway_keys st"
  "gateway_keys (st\<lparr>meetingStateRef := ms\<rparr>) = gateway_keys st"
  "gateway_keys (st\<lparr>outstanding := f\<rparr>) = gateway_keys st"
  "gateway_keys (st\<lparr>abortController := a\<rparr>) = gateway_keys st"
  "gateway_keys (st\<lparr>apiKeys := ks\<rparr>) = gateway_keys st"
  "gateway_keys (st\<lparr>cooldowns := cs\<rparr>) = gateway_keys st"
  "gateway_keys (st\<lparr>app_error := er\<rparr>) = gateway_keys st"
  by (simp_all add: gateway_keys_def)

lemma map_update_same:
  "i < length xs \<Longrightarrow> f (xs ! i) = y \<Longrightarrow> (map f xs)[i := y] = map f xs"
  by (simp add: list_eq_iff_nth_eq nth_list_update)

lemma gateway_keys_set_state [simp]: "gateway_keys (set_state i ms st) = gateway_keys st"
  by (simp add: set_state_def gateway_keys_def map_update map_update_same)

lemma gateway_keys_set_orchestrator:
  "orchestrator_of i st = Some m \<Longrightarrow> mgr_keys m' = mgr_keys m \<Longrightarrow>
   gateway_keys (set_orchestrator i m' st) = gateway_keys st"
  by (auto simp: set_orchestrator_def orchestrator_of_def gateway_keys_def map_update
      map_update_same split: if_splits)

lemma catch_handler_gateway_keys [simp]: "gateway_keys (catch_handler cl e st) = gateway_keys st"
  by (simp add: catch_handler_def Let_def split: thrown.splits option.splits)

lemma invoke_gateway_keys [simp]: "gateway_keys (invoke cl req i st) = gateway_keys st"
  by (auto simp: invoke_def gateway_keys_set_orchestrator split: option.splits prod.splits sum.splits
      dest: gen_begin_keysD)

lemma discuss_gateway_keys [simp]: "gateway_keys (discuss cl i st) = gateway_keys st"
  by (simp add: discuss_def Let_def)

lemma runMeetingStep_gateway_keys [simp]: "gateway_keys (runMeetingStep st) = gateway_keys st"
  by (simp add: runMeetingStep_def)

lemma continue_with_gateway_keys [simp]: "gateway_keys (continue_with f t st) = gateway_keys st"
  by (simp add: continue_with_def Let_def split: request.splits)

lemma on_response_gateway_keys [simp]: "gateway_keys (on_response k r st) = gateway_keys st"
proof (cases "k < length (outstanding st)")
  case False
  then show ?thesis by (simp add: on_response_def)
next
  case True
  let ?f = "outstanding st ! k"
  show ?thesis
  proof (cases "orchestrator_of (fl_session ?f) st")
    case None
    then show ?thesis using True by (simp add: on_response_def Let_def)
  next
    case m: (Some m)
    show ?thesis
    proof (cases "controller_of (fl_signal ?f) st")
      case None
      then show ?thesis using True m by (simp add: on_response_def Let_def)
    next
      case ab: (Some ab)
      show ?thesis
      proof (cases "gen_resume r ab (fl_call ?f) m")
        case (Pair s m')
        then have k': "mgr_keys m' = mgr_keys m" by (rule gen_resume_keysD)
        have o: "gateway_keys (set_orchestrator (fl_session ?f) m' st) = gateway_keys st"
          using m k' by (rule gateway_keys_set_orchestrator)
        show ?thesis using True m ab Pair o
          by (cases s) (simp_all add: on_response_def Let_def)
      qed
    qed
  qed
qed

lemma handleStartMeeting_gateway_keys:
  "take (length (gateway_keys st)) (gateway_keys (handleStartMeeting st)) = gateway_keys st"
  by (simp add: handleStartMeeting_def gateway_keys_def)

lemma dispatch_gateway_keys:
  "dispatch ev st = Some st' \<Longrightarrow> ev \<noteq> ClickStart \<Longrightarrow> gateway_keys st' = gateway_keys st"
  by (cases ev)
     (auto simp: dispatch_def handleStopMeeting_def handleResetMeeting_def submit_interjection_def
        handleSendMessage_def cooldown_fires_def split: if_splits)

lemma dispatch_gateway_keys_start:
  "dispatch ClickStart st = Some st' \<Longrightarrow>
   take (length (gateway_keys st)) (gateway_keys st') = gateway_keys st"
  by (auto simp: dispatch_def click_start_def handleStartMeeting_gateway_keys split: if_splits)

lemma draw_new:
  "fst (draw n (new_ApiKeyManager ks)) =
     map (\<lambda>j. if filter key_usable ks = [] then None
              else Some (filter key_usable ks ! (j mod length (filter key_usable ks)))) [0..<n]"
proof (cases "filter key_usable ks = []")
  case True
  then have "mgr_keys (new_ApiKeyManager ks) = []" by (simp add: new_ApiKeyManager_def)
  then have "draw n (new_ApiKeyManager ks) = (replicate n None, new_ApiKeyManager ks)"
    by (rule draw_empty)
  then show ?thesis using True by (simp add: map_replicate_const)
next
  case False
  then have "mgr_ok (new_ApiKeyManager ks)" by (rule new_mgr_ok)
  from draw_ok [OF this, of n] show ?thesis using False
    by (simp add: new_ApiKeyManager_def)
qed

lemma ex_usable [simp]:
  "key_usable ex_k1" "key_usable ex_k2" "key_usable ex_k3"
  "\<not> key_usable ex_blank" "\<not> key_usable ex_nbsp"
  by code_simp+

lemma run_append: "run (xs @ ys) st = (case run xs st of None \<Rightarrow> None | Some st' \<Rightarrow> run ys st')"
  by (induction xs arbitrary: st) (simp_all split: option.splits)

text \<open>
  C10. The key list of a gateway is fixed when the gateway is created. Its count of
  available keys is the number of keys that were active with a non-blank value then (a key
  whose value is only white space, in the sense of \<open>String.prototype.trim\<close>, does not
  count, whatever its status); every key that \<open>getNextKey\<close> ever returns is one of those;
  and no event changes the key list of a gateway that exists, of the meeting of the moment
  or of an earlier one: not the status updates of the catch block, not a cooldown timer,
  not a start, which only adds a gateway.
\<close>

theorem pool_snapshot:
  "getAvailableKeyCount (new_ApiKeyManager ks) =
     length (filter (\<lambda>k. key_status k = Active \<and> trim (key_value k) \<noteq> []) ks)
   \<and> (\<forall>k. Some k \<in> set (fst (draw n (new_ApiKeyManager ks))) \<longrightarrow>
          k \<in> set ks \<and> key_status k = Active \<and> trim (key_value k) \<noteq> [])
   \<and> (\<forall>st'. dispatch ev st = Some st' \<longrightarrow>
          take (length (gateway_keys st)) (gateway_keys st') = gateway_keys st
          \<and> (ev \<noteq> ClickStart \<longrightarrow> gateway_keys st' = gateway_keys st))"
proof (intro conjI allI impI)
  show "getAvailableKeyCount (new_ApiKeyManager ks) =
     length (filter (\<lambda>k. key_status k = Active \<and> trim (key_value k) \<noteq> []) ks)"
    by (simp add: getAvailableKeyCount_def new_ApiKeyManager_def key_usable_def [abs_def])
next
  fix k assume "Some k \<in> set (fst (draw n (new_ApiKeyManager ks)))"
  then obtain j where nonempty: "filter key_usable ks \<noteq> []"
    and k: "k = filter key_usable ks ! (j mod length (filter key_usable ks))"
    by (auto simp: draw_new split: if_splits)
  have "j mod length (filter key_usable ks) < length (filter key_usable ks)"
    using nonempty by simp
  then have "k \<in> set (filter key_usable ks)" unfolding k by (rule nth_mem)
  then have "k \<in> set ks \<and> key_usable k" by simp
  then show "k \<in> set ks" and "key_status k = Active" and "trim (key_value k) \<noteq> []"
    by (simp_all add: key_usable_def)
next
  fix st' assume d: "dispatch ev st = Some st'"
  show "take (length (gateway_keys st)) (gateway_keys st') = gateway_keys st"
  proof (cases "ev = ClickStart")
    case True
    then show ?thesis using d by (simp add: dispatch_gateway_keys_start)
  next
    case False
    then show ?thesis using d dispatch_gateway_keys by simp
  qed
next
  fix st' assume "dispatch ev st = Some st'" and "ev \<noteq> ClickStart"
  then show "gateway_keys st' = gateway_keys st" by (rule dispatch_gateway_keys)
qed

theorem pool_snapshot_witness:
  "getAvailableKeyCount (new_ApiKeyManager [ex_blank, ex_nbsp, ex_k1]) = 1
   \<and> fst (draw 2 (new_ApiKeyManager [ex_blank, ex_nbsp, ex_k1])) = [Some ex_k1, Some ex_k1]
   \<and> key_status ex_k1 = Active \<and> trim (key_value ex_k1) \<noteq> []
   \<and> map key_status [ex_blank, ex_nbsp] = [Active, Active]
   \<and> map_option (\<lambda>st. (map key_status (apiKeys st), gateway_keys st))
        (run [ClickStart, Tick, Response 0 (Failure (js ''429''))]
           (mounted [ex_alice, ex_bob] (js ''Plan'') [ex_nbsp, ex_k1, ex_k2]))
       = Some ([Active, Active, Active], [None, Some [ex_k1, ex_k2]])
   \<and> map_option (\<lambda>st. (map key_status (apiKeys st), gateway_keys st))
        (run [ClickStart, Tick, Response 0 (Failure (js ''429'')), Response 0 (Failure (js ''429''))]
           (mounted [ex_alice, ex_bob] (js ''Plan'') [ex_nbsp, ex_k1, ex_k2]))
       = Some ([Active, RateLimited, Active], [None, Some [ex_k1, ex_k2]])
   \<and> map_option (\<lambda>st. (map key_status (apiKeys st), gateway_keys st))
        (run [ClickStart, Tick, Response 0 (Failure (js ''429'')), Response 0 (Failure (js ''429'')),
              Cooldown (js ''k1'')]
           (mounted [ex_alice, ex_bob] (js ''Plan'') [ex_nbsp, ex_k1, ex_k2]))
       = Some ([Active, Active, Active], [None, Some [ex_k1, ex_k2]])
   \<and> map_option (\<lambda>st. (map key_status (apiKeys st), gateway_keys st))
        (run [ClickStart, Tick, Response 0 (Failure (js ''429'')), Response 0 (Failure (js ''429'')),
              ClickStart]
           (mounted [ex_alice, ex_bob] (js ''Plan'') [ex_nbsp, ex_k1, ex_k2]))
       = Some ([Active, RateLimited, Active], [None, Some [ex_k1, ex_k2], Some [ex_k2]])"
proof -
  let ?M = "mounted [ex_alice, ex_bob] (js ''Plan'') [ex_nbsp, ex_k1, ex_k2]"
  let ?evs = "[ClickStart, Tick, Response 0 (Failure (js ''429''))]"
  let ?ev = "Response 0 (Failure (js ''429''))"
  let ?g = "\<lambda>st. (map key_status (apiKeys st), gateway_keys st)"
  have c: "getAvailableKeyCount (new_ApiKeyManager [ex_blank, ex_nbsp, ex_k1]) = 1"
    by (simp add: getAvailableKeyCount_def new_ApiKeyManager_def)
  have d: "fst (draw 2 (new_ApiKeyManager [ex_blank, ex_nbsp, ex_k1])) = [Some ex_k1, Some ex_k1]"
    by (simp only: draw_new) (simp add: upt_rec)
  have s: "map key_status [ex_blank, ex_nbsp] = [Active, Active]"
    by (simp add: ex_blank_def ex_nbsp_def)
  have r1: "map_option ?g (run ?evs ?M) = Some ([Active, Active, Active], [None, Some [ex_k1, ex_k2]])"
    by code_simp
  then obtain st where st: "run ?evs ?M = Some st"
    and k1: "map key_status (apiKeys st) = [Active, Active, Active]"
    and g1: "gateway_keys st = [None, Some [ex_k1, ex_k2]]"
    by (cases "run ?evs ?M") auto
  have e: "run (?evs @ [?ev]) ?M = (case dispatch ?ev st of None \<Rightarrow> None | Some s \<Rightarrow> Some s)"
    unfolding run_append st by (simp split: option.splits)
  have r2: "map_option (\<lambda>st. map key_status (apiKeys st)) (run (?evs @ [?ev]) ?M)
      = Some [Active, RateLimited, Active]"
    by code_simp
  have "map_option (\<lambda>st. map key_status (apiKeys st))
          (case dispatch ?ev st of None \<Rightarrow> None | Some s \<Rightarrow> Some s)
      = Some [Active, RateLimited, Active]"
    using r2 unfolding e .
  then obtain st' where st': "dispatch ?ev st = Some st'"
    and k2: "map key_status (apiKeys st') = [Active, RateLimited, Active]"
    by (cases "dispatch ?ev st") auto
  have g2: "gateway_keys st' = gateway_keys st"
    using pool_snapshot [of "[ex_blank, ex_nbsp, ex_k1]" 2 ?ev st] st' by simp
  have e2: "run (?evs @ [?ev]) ?M = Some st'"
    unfolding e using st' by simp
  have r3: "map_option ?g (run ((?evs @ [?ev]) @ [Cooldown (js ''k1'')]) ?M)
      = Some ([Active, Active, Active], [None, Some [ex_k1, ex_k2]])"
    by code_simp
  have r4: "map_option ?g (run ((?evs @ [?ev]) @ [ClickStart]) ?M)
      = Some ([Active, RateLimited, Active], [None, Some [ex_k1, ex_k2], Some [ex_k2]])"
    by code_simp
  have u: "key_status ex_k1 = Active \<and> trim (key_value ex_k1) \<noteq> []"
    using ex_usable(1) by (simp add: key_usable_def)
  have "map_option ?g (run (?evs @ [?ev]) ?M) = Some ([Active, RateLimited, Active], [None, Some [ex_k1, ex_k2]])"
    using e2 k2 g2 g1 by simp
  then show ?thesis using c d s r1 r3 r4 u by simp
qed

text \<open>
  C4, as the code has it. \<open>getNextKey\<close> moves its cursor over the keys that were usable when
  the gateway was created, in their original order, and wraps around; the statuses of the
  moment are not read. They are read when a meeting starts: the start creates the gateway
  from the key list as it is then.
\<close>

theorem next_key_over_creation_subset:
  "fst (draw n (new_ApiKeyManager ks)) =
     map (\<lambda>j. if filter key_usable ks = [] then None
              else Some (filter key_usable ks ! (j mod length (filter key_usable ks)))) [0..<n]
   \<and> (\<not> isMeetingRunning st \<and> hasActiveKey (apiKeys st) \<longrightarrow>
        orchestratorRef (handleStartMeeting st) = Some (new_ApiKeyManager (apiKeys st)))"
  by (simp add: draw_new handleStartMeeting_def)

theorem next_key_over_creation_subset_witness:
  "fst (draw 3 (new_ApiKeyManager [ex_k1, ex_blank, ex_k2])) = [Some ex_k1, Some ex_k2, Some ex_k1]
   \<and> \<not> isMeetingRunning (mounted [] [] [ex_k1]) \<and> hasActiveKey (apiKeys (mounted [] [] [ex_k1]))
   \<and> orchestratorRef (handleStartMeeting (mounted [] [] [ex_k1])) = Some (new_ApiKeyManager [ex_k1])"
proof -
  have h: "\<not> isMeetingRunning (mounted [] [] [ex_k1]) \<and> hasActiveKey (apiKeys (mounted [] [] [ex_k1]))"
    by (simp add: mounted_def hasActiveKey_def ex_k1_def)
  have a: "apiKeys (mounted [] [] [ex_k1]) = [ex_k1]" by (simp add: mounted_def)
  from next_key_over_creation_subset [of 3 "[ex_k1, ex_blank, ex_k2]" "mounted [] [] [ex_k1]"] h
  show ?thesis by (simp add: upt_rec a)
qed

text \<open>
  C4 as stated fails. A gateway is created over two usable keys and returns the first. The
  first key's status is then set to rate-limited in the key list (the updater of line 243):
  the usable keys of the moment are the second key alone, yet the third call returns the
  first key again. In the other direction: in a meeting started while the first key was
  rate-limited, the first key's cooldown ends during the agenda request; both keys are
  usable from then on, yet the two following requests both go out with the second key.
\<close>

theorem next_key_recomputed_counterexample:
  "fst (draw 3 (new_ApiKeyManager [ex_k1, ex_k2])) = [Some ex_k1, Some ex_k2, Some ex_k1]
   \<and> filter key_usable (set_status (js ''k1'') RateLimited [ex_k1, ex_k2]) = [ex_k2]
   \<and> map_option (\<lambda>st. (filter key_usable (apiKeys st), map (apiKey \<circ> fl_call) (outstanding st)))
        (run [ClickStart, Tick, Response 0 (Failure (js ''429'')), Response 0 (Failure (js ''429'')),
              ClickStart, Tick, Cooldown (js ''k1''), Response 0 (Success (js ''1. A''))]
           (mounted [ex_alice, ex_bob] (js ''Plan'') [ex_k1, ex_k2]))
       = Some ([ex_k1, ex_k2], [js ''key-2''])
   \<and> map_option (\<lambda>st. (filter key_usable (apiKeys st), map (apiKey \<circ> fl_call) (outstanding st)))
        (run [ClickStart, Tick, Response 0 (Failure (js ''429'')), Response 0 (Failure (js ''429'')),
              ClickStart, Tick, Cooldown (js ''k1''), Response 0 (Success (js ''1. A'')),
              Response 0 (Success (js ''x'')), Tick]
           (mounted [ex_alice, ex_bob] (js ''Plan'') [ex_k1, ex_k2]))
       = Some ([ex_k1, ex_k2], [js ''key-2''])"
  by code_simp

section \<open>Properties of the generation gateway\<close>

lemma gen_loop_first:
  assumes "mgr_ok m" "i < n"
  shows "gen_loop False i n m =
    (Inr \<lparr>keyAttempt = i, totalKeys = n, apiKey = key_value (mgr_keys m ! currentIndex m)\<rparr>,
     m\<lparr>currentIndex := Suc (currentIndex m) mod length (mgr_keys m)\<rparr>)"
  using assms by (subst gen_loop.simps) (simp add: getNextKey_ok)

lemma gen_begin_ok:
  assumes "mgr_ok m"
  shows "gen_begin False m =
    (Inr \<lparr>keyAttempt = 0, totalKeys = length (mgr_keys m),
          apiKey = key_value (mgr_keys m ! currentIndex m)\<rparr>,
     m\<lparr>currentIndex := Suc (currentIndex m) mod length (mgr_keys m)\<rparr>)"
proof -
  have "0 < length (mgr_keys m)" using assms by (simp add: mgr_ok_def)
  then show ?thesis
    using gen_loop_first [OF assms, of 0 "length (mgr_keys m)"]
    by (simp add: gen_begin_def getAvailableKeyCount_def Let_def)
qed

lemma call_first_attempt_ok:
  assumes "mgr_ok m"
  shows "generateContentWithRetry [Success t] False m =
    (Return t, m\<lparr>currentIndex := Suc (currentIndex m) mod length (mgr_keys m)\<rparr>,
     [key_value (mgr_keys m ! currentIndex m)])"
  by (simp add: generateContentWithRetry_def gen_begin_ok [OF assms] gen_resume_def)

lemma gen_calls_ok:
  assumes "mgr_ok m"
  shows "gen_calls (map (\<lambda>t. [Success t]) ts) False m =
    (map Return ts, m\<lparr>currentIndex := (currentIndex m + length ts) mod length (mgr_keys m)\<rparr>,
     map (\<lambda>j. key_value (mgr_keys m ! ((currentIndex m + j) mod length (mgr_keys m)))) [0..<length ts])"
  using assms
proof (induction ts arbitrary: m)
  case Nil
  then show ?case by (simp add: mgr_ok_def)
next
  case (Cons t ts)
  let ?c = "length (mgr_keys m)"
  let ?m' = "m\<lparr>currentIndex := Suc (currentIndex m) mod ?c\<rparr>"
  have ok': "mgr_ok ?m'" using Cons.prems by (simp add: mgr_ok_def)
  have shift: "map (\<lambda>j. key_value (mgr_keys m ! ((Suc (currentIndex m) mod ?c + j) mod ?c))) [0..<length ts]
      = map (\<lambda>j. key_value (mgr_keys m ! ((currentIndex m + j) mod ?c))) [Suc 0..<Suc (length ts)]"
    by (simp add: map_Suc_upt [symmetric] mod_simps del: upt_Suc)
  have hd: "mgr_keys m ! currentIndex m = mgr_keys m ! ((currentIndex m + 0) mod ?c)"
    using Cons.prems by (simp add: mgr_ok_def)
  show ?case
    using Cons.IH [OF ok'] call_first_attempt_ok [OF Cons.prems, of t] shift hd
    by (simp add: upt_rec [of 0 "Suc (length ts)"] mod_simps del: upt_Suc)
qed

lemma hit_iff:
  fixes c :: nat
  assumes "p < c" "i < c"
  shows "(i + k) mod c = p \<longleftrightarrow> k mod c = (p + c - i) mod c"
proof
  assume h: "(i + k) mod c = p"
  have "(p + c - i) mod c = ((i + k) mod c + (c - i)) mod c" using h assms by simp
  also have "\<dots> = (i + k + (c - i)) mod c" by (simp add: mod_simps)
  also have "\<dots> = (k + c) mod c" using assms by simp
  finally show "k mod c = (p + c - i) mod c" by simp
next
  assume h: "k mod c = (p + c - i) mod c"
  have "(i + k) mod c = (i + k mod c) mod c" by (simp add: mod_simps)
  also have "\<dots> = (i + (p + c - i)) mod c" unfolding h by (simp add: mod_simps)
  also have "\<dots> = (p + c) mod c" using assms by simp
  finally show "(i + k) mod c = p" using assms by simp
qed

lemma count_list_snoc: "count_list (xs @ [x]) y = count_list xs y + (if x = y then 1 else 0)"
  by (induction xs) simp_all

lemma rotation_count:
  fixes c :: nat
  assumes "p < c" "i < c"
  shows "count_list (map (\<lambda>j. (i + j) mod c) [0..<k]) p =
           k div c + (if (p + c - i) mod c < k mod c then 1 else 0)"
proof (induction k)
  case 0
  then show ?case by simp
next
  case (Suc k)
  let ?d = "(p + c - i) mod c"
  have c0: "0 < c" using assms by simp
  have d: "?d < c" using c0 by simp
  have km: "k mod c < c" using c0 by simp
  show ?case
  proof (cases "Suc (k mod c) = c")
    case True
    then have "Suc k mod c = 0" and "Suc k div c = Suc (k div c)"
      by (simp_all add: mod_Suc div_Suc)
    moreover have "(?d < k mod c) \<or> (?d = k mod c)" using True d by linarith
    ultimately show ?thesis
      using Suc hit_iff [OF assms, of k] by (auto simp: count_list_snoc)
  next
    case False
    then have "Suc k mod c = Suc (k mod c)" and "Suc k div c = k div c"
      by (simp_all add: mod_Suc div_Suc)
    then show ?thesis
      using Suc hit_iff [OF assms, of k] by (auto simp: count_list_snoc)
  qed
qed

lemma count_list_map_inj:
  assumes "\<And>x. x \<in> set xs \<Longrightarrow> f x = f p \<longleftrightarrow> x = p"
  shows "count_list (map f xs) (f p) = count_list xs p"
  using assms by (induction xs) auto

lemma ceil_div:
  fixes c :: nat
  assumes "0 < c"
  shows "(k + c - 1) div c = k div c + (if k mod c = 0 then 0 else 1)"
proof -
  obtain c' where c: "c = Suc c'" using assms by (cases c) auto
  define q where "q = k div c"
  define r where "r = k mod c"
  have "k = k mod c + k div c * c" by (simp only: mod_div_mult_eq)
  then have k: "k = r + q * Suc c'" by (simp only: q_def r_def c)
  have r: "r < Suc c'" by (simp add: r_def c)
  show ?thesis
  proof (cases "r = 0")
    case True
    have "(k + c - 1) div c = (c' + q * Suc c') div Suc c'" using k True c by (simp add: ac_simps)
    also have "\<dots> = q + c' div Suc c'" by (rule div_mult_self1) simp
    finally show ?thesis using True by (simp add: q_def r_def)
  next
    case False
    then obtain r' where r': "r = Suc r'" by (cases r) auto
    have "(k + c - 1) div c = (r' + (q + 1) * Suc c') div Suc c'" using k r' c by (simp add: ac_simps)
    also have "\<dots> = (q + 1) + r' div Suc c'" by (rule div_mult_self1) simp
    finally show ?thesis using False r r' by (simp add: q_def r_def)
  qed
qed

text \<open>
  C9. A gateway whose keys have distinct values serves any number of consecutive generation
  calls that each succeed at their first attempt (the signal not aborted). Every call
  returns its response, and over these calls each key of the gateway is drawn either
  \<open>\<lfloor>k/c\<rfloor>\<close> or \<open>\<lceil>k/c\<rceil>\<close> times, \<open>k\<close> the number of calls and \<open>c\<close> the number of available keys.
  The key list of a gateway never changes, so no status change can intervene.
\<close>

theorem rotation_fair:
  assumes ok: "mgr_ok m" and dist: "distinct (map key_value (mgr_keys m))"
    and kin: "k \<in> set (mgr_keys m)"
  shows "fst (gen_calls (map (\<lambda>t. [Success t]) ts) False m) = map Return ts
    \<and> (count_list (snd (snd (gen_calls (map (\<lambda>t. [Success t]) ts) False m))) (key_value k)
          = length ts div getAvailableKeyCount m
       \<or> count_list (snd (snd (gen_calls (map (\<lambda>t. [Success t]) ts) False m))) (key_value k)
          = (length ts + getAvailableKeyCount m - 1) div getAvailableKeyCount m)"
proof -
  let ?c = "length (mgr_keys m)"
  let ?i = "currentIndex m"
  let ?n = "length ts"
  let ?f = "\<lambda>q. key_value (mgr_keys m ! q)"
  let ?g = "\<lambda>j. (?i + j) mod ?c"
  have c0: "0 < ?c" and i: "?i < ?c" using ok by (simp_all add: mgr_ok_def)
  obtain p where p: "p < ?c" and kp: "mgr_keys m ! p = k"
    using kin by (auto simp: in_set_conv_nth)
  have calls: "gen_calls (map (\<lambda>t. [Success t]) ts) False m =
      (map Return ts, m\<lparr>currentIndex := (?i + ?n) mod ?c\<rparr>, map (\<lambda>j. ?f (?g j)) [0..<?n])"
    by (rule gen_calls_ok [OF ok])
  have inj: "?f x = ?f p \<longleftrightarrow> x = p" if "x \<in> set (map ?g [0..<?n])" for x
  proof -
    have x: "x < ?c" using that c0 by auto
    have "(map key_value (mgr_keys m) ! x = map key_value (mgr_keys m) ! p) = (x = p)"
      by (rule nth_eq_iff_index_eq [OF dist]) (simp_all add: x p)
    then show ?thesis using x p by simp
  qed
  have "count_list (map (\<lambda>j. ?f (?g j)) [0..<?n]) (?f p) = count_list (map ?f (map ?g [0..<?n])) (?f p)"
    by (simp add: comp_def)
  also have "\<dots> = count_list (map ?g [0..<?n]) p"
    by (rule count_list_map_inj) (rule inj)
  also have "\<dots> = ?n div ?c + (if (p + ?c - ?i) mod ?c < ?n mod ?c then 1 else 0)"
    by (rule rotation_count [OF p i])
  finally have cnt: "count_list (map (\<lambda>j. ?f (?g j)) [0..<?n]) (key_value k) =
      ?n div ?c + (if (p + ?c - ?i) mod ?c < ?n mod ?c then 1 else 0)"
    using kp by simp
  have ceil: "(?n + ?c - 1) div ?c = ?n div ?c + (if ?n mod ?c = 0 then 0 else 1)"
    by (rule ceil_div [OF c0])
  show ?thesis
    unfolding calls getAvailableKeyCount_def fst_conv snd_conv cnt ceil
    by auto
qed

theorem rotation_fair_witness:
  "mgr_ok (new_ApiKeyManager [ex_k1, ex_k2, ex_k3])
   \<and> distinct (map key_value (mgr_keys (new_ApiKeyManager [ex_k1, ex_k2, ex_k3])))
   \<and> ex_k2 \<in> set (mgr_keys (new_ApiKeyManager [ex_k1, ex_k2, ex_k3]))
   \<and> snd (snd (gen_calls (map (\<lambda>t. [Success t]) [js ''a'', js ''b'', js ''c'', js ''d''])
                  False (new_ApiKeyManager [ex_k1, ex_k2, ex_k3])))
       = [js ''key-1'', js ''key-2'', js ''key-3'', js ''key-1'']
   \<and> count_list (snd (snd (gen_calls (map (\<lambda>t. [Success t]) [js ''a'', js ''b'', js ''c'', js ''d''])
                  False (new_ApiKeyManager [ex_k1, ex_k2, ex_k3])))) (key_value ex_k2) = 4 div 3"
proof -
  have a: "mgr_ok (new_ApiKeyManager [ex_k1, ex_k2, ex_k3])" by (simp add: new_mgr_ok)
  have b: "distinct (map key_value (mgr_keys (new_ApiKeyManager [ex_k1, ex_k2, ex_k3])))"
    by (simp add: new_ApiKeyManager_def) (simp add: ex_k1_def ex_k2_def ex_k3_def)
  have c: "ex_k2 \<in> set (mgr_keys (new_ApiKeyManager [ex_k1, ex_k2, ex_k3]))"
    by (simp add: new_ApiKeyManager_def)
  have d: "snd (snd (gen_calls (map (\<lambda>t. [Success t]) [js ''a'', js ''b'', js ''c'', js ''d''])
                  False (new_ApiKeyManager [ex_k1, ex_k2, ex_k3])))
       = [js ''key-1'', js ''key-2'', js ''key-3'', js ''key-1'']"
    by code_simp
  have e: "count_list [js ''key-1'', js ''key-2'', js ''key-3'', js ''key-1''] (key_value ex_k2) = 4 div 3"
    by (simp add: ex_k2_def)
  from rotation_fair [OF a b c, of "[js ''a'', js ''b'', js ''c'', js ''d'']"] a b c d e
  show ?thesis by simp
qed

lemma set_orchestrator_fields [simp]:
  "personas (set_orchestrator i m st) = personas st"
  "meetingTopic (set_orchestrator i m st) = meetingTopic st"
  "apiKeys (set_orchestrator i m st) = apiKeys st"
  "chatHistory (set_orchestrator i m st) = chatHistory st"
  "isMeetingRunning (set_orchestrator i m st) = isMeetingRunning st"
  "isWaitingForAI (set_orchestrator i m st) = isWaitingForAI st"
  "app_error (set_orchestrator i m st) = app_error st"
  "abortController (set_orchestrator i m st) = abortController st"
  "meetingStateRef (set_orchestrator i m st) = meetingStateRef st"
  "outstanding (set_orchestrator i m st) = outstanding st"
  "cooldowns (set_orchestrator i m st) = cooldowns st"
  "length (retired (set_orchestrator i m st)) = length (retired st)"
  by (simp_all add: set_orchestrator_def)

lemma set_state_fields [simp]:
  "personas (set_state i ms st) = personas st"
  "meetingTopic (set_state i ms st) = meetingTopic st"
  "apiKeys (set_state i ms st) = apiKeys st"
  "chatHistory (set_state i ms st) = chatHistory st"
  "isMeetingRunning (set_state i ms st) = isMeetingRunning st"
  "isWaitingForAI (set_state i ms st) = isWaitingForAI st"
  "app_error (set_state i ms st) = app_error st"
  "abortController (set_state i ms st) = abortController st"
  "orchestratorRef (set_state i ms st) = orchestratorRef st"
  "outstanding (set_state i ms st) = outstanding st"
  "cooldowns (set_state i ms st) = cooldowns st"
  "length (retired (set_state i ms st)) = length (retired st)"
  by (simp_all add: set_state_def)

lemma gen_loop_exhausted:
  assumes "mgr_ok m" "\<not> i < n"
  shows "gen_loop ab i n m =
    (Inl (RateLimitError
            (js ''All API keys are currently rate-limited. Please wait a while or add a new key.'')
            (key_value (mgr_keys m ! currentIndex m))),
     m\<lparr>currentIndex := Suc (currentIndex m) mod length (mgr_keys m)\<rparr>)"
  using assms by (subst gen_loop.simps) (simp add: getNextKey_ok)

text \<open>
  C5, as the code has it. A tick is suspended in a generation request, the signal its
  request was given is not aborted, and the attempt in flight fails with an error
  classified as rate limiting. If attempts remain, the request goes on to the next attempt
  with the next key of the rotation of the tick's gateway: the tick stays suspended, the
  meeting keeps running, and no key's status changes. If it was the last attempt, the
  request fails with the rate-limit error that names the key next in the rotation, the
  meeting stops, and the catch block sets to rate-limited the key of that value, and no
  other.
\<close>

theorem rate_limited_attempt_rotates:
  assumes "k < length (outstanding st)" and "outstanding st ! k = f"
    and "orchestrator_of (fl_session f) st = Some m" and "mgr_ok m"
    and "controller_of (fl_signal f) st = Some False" and "isRateLimitError msg"
  shows "(keyAttempt (fl_call f) + 1 < totalKeys (fl_call f) \<longrightarrow>
           on_response k (Failure msg) st =
             (set_orchestrator (fl_session f)
                (m\<lparr>currentIndex := Suc (currentIndex m) mod length (mgr_keys m)\<rparr>) st)
               \<lparr>outstanding :=
                  (outstanding st)
                    [k := f\<lparr>fl_call := \<lparr>keyAttempt = keyAttempt (fl_call f) + 1,
                                          totalKeys = totalKeys (fl_call f),
                                          apiKey = key_value (mgr_keys m ! currentIndex m)\<rparr>\<rparr>]\<rparr>
           \<and> apiKeys (on_response k (Failure msg) st) = apiKeys st
           \<and> isMeetingRunning (on_response k (Failure msg) st) = isMeetingRunning st)
       \<and> (\<not> keyAttempt (fl_call f) + 1 < totalKeys (fl_call f) \<longrightarrow>
           fst (gen_resume (Failure msg) False (fl_call f) m) =
             Throw (RateLimitError
               (js ''All API keys are currently rate-limited. Please wait a while or add a new key.'')
               (key_value (mgr_keys m ! currentIndex m)))
           \<and> \<not> isMeetingRunning (on_response k (Failure msg) st)
           \<and> apiKeys (on_response k (Failure msg) st) =
               (case find (\<lambda>k. key_value k = key_value (mgr_keys m ! currentIndex m))
                       (cl_apiKeys (fl_closure f)) of
                  None \<Rightarrow> apiKeys st
                | Some failingKey \<Rightarrow> set_status (key_id failingKey) RateLimited (apiKeys st)))"
proof (intro conjI impI)
  assume more: "keyAttempt (fl_call f) + 1 < totalKeys (fl_call f)"
  have r: "gen_resume (Failure msg) False (fl_call f) m =
    (Await \<lparr>keyAttempt = keyAttempt (fl_call f) + 1, totalKeys = totalKeys (fl_call f),
            apiKey = key_value (mgr_keys m ! currentIndex m)\<rparr>,
     m\<lparr>currentIndex := Suc (currentIndex m) mod length (mgr_keys m)\<rparr>)"
    using assms(6) gen_loop_first [OF assms(4) more] by (simp add: gen_resume_def)
  show eq: "on_response k (Failure msg) st =
             (set_orchestrator (fl_session f)
                (m\<lparr>currentIndex := Suc (currentIndex m) mod length (mgr_keys m)\<rparr>) st)
               \<lparr>outstanding :=
                  (outstanding st)
                    [k := f\<lparr>fl_call := \<lparr>keyAttempt = keyAttempt (fl_call f) + 1,
                                          totalKeys = totalKeys (fl_call f),
                                          apiKey = key_value (mgr_keys m ! currentIndex m)\<rparr>\<rparr>]\<rparr>"
    using assms(1,2,3,5) r by (simp add: on_response_def Let_def)
  show "apiKeys (on_response k (Failure msg) st) = apiKeys st" by (simp add: eq)
  show "isMeetingRunning (on_response k (Failure msg) st) = isMeetingRunning st" by (simp add: eq)
next
  assume last: "\<not> keyAttempt (fl_call f) + 1 < totalKeys (fl_call f)"
  let ?e = "RateLimitError
               (js ''All API keys are currently rate-limited. Please wait a while or add a new key.'')
               (key_value (mgr_keys m ! currentIndex m))"
  let ?m' = "m\<lparr>currentIndex := Suc (currentIndex m) mod length (mgr_keys m)\<rparr>"
  have r: "gen_resume (Failure msg) False (fl_call f) m = (Throw ?e, ?m')"
    using assms(6) gen_loop_exhausted [OF assms(4) last] by (simp add: gen_resume_def)
  show "fst (gen_resume (Failure msg) False (fl_call f) m) = Throw ?e" by (simp add: r)
  have eq: "on_response k (Failure msg) st =
      catch_handler (fl_closure f) ?e
        ((set_orchestrator (fl_session f) ?m' st)\<lparr>outstanding := remove_nth k (outstanding st)\<rparr>)"
    using assms(1,2,3,5) r by (simp add: on_response_def Let_def)
  show "\<not> isMeetingRunning (on_response k (Failure msg) st)"
    by (simp add: eq catch_handler_def Let_def split: option.splits)
  show "apiKeys (on_response k (Failure msg) st) =
               (case find (\<lambda>k. key_value k = key_value (mgr_keys m ! currentIndex m))
                       (cl_apiKeys (fl_closure f)) of
                  None \<Rightarrow> apiKeys st
                | Some failingKey \<Rightarrow> set_status (key_id failingKey) RateLimited (apiKeys st))"
    by (simp add: eq catch_handler_def Let_def split: option.splits)
qed

theorem rate_limited_attempt_rotates_witness:
  "map (apiKey \<circ> fl_call)
       (outstanding (the (run [ClickStart, Tick] (mounted [ex_alice] (js ''Plan'') [ex_k1, ex_k2]))))
     = [js ''key-1'']
   \<and> abortController (the (run [ClickStart, Tick] (mounted [ex_alice] (js ''Plan'') [ex_k1, ex_k2]))) = Some False
   \<and> isRateLimitError (js ''429 Too Many Requests'')
   \<and> map key_status (apiKeys (on_response 0 (Failure (js ''429 Too Many Requests''))
        (the (run [ClickStart, Tick] (mounted [ex_alice] (js ''Plan'') [ex_k1, ex_k2]))))) = [Active, Active]
   \<and> map (apiKey \<circ> fl_call) (outstanding (on_response 0 (Failure (js ''429 Too Many Requests''))
        (the (run [ClickStart, Tick] (mounted [ex_alice] (js ''Plan'') [ex_k1, ex_k2]))))) = [js ''key-2'']
   \<and> map key_status (apiKeys (on_response 0 (Failure (js ''429 Too Many Requests''))
        (the (run [ClickStart, Tick, Response 0 (Failure (js ''429 Too Many Requests''))]
           (mounted [ex_alice] (js ''Plan'') [ex_k1, ex_k2]))))) = [RateLimited, Active]"
proof -
  let ?st = "the (run [ClickStart, Tick] (mounted [ex_alice] (js ''Plan'') [ex_k1, ex_k2]))"
  let ?m = "\<lparr>mgr_keys = [ex_k1, ex_k2], currentIndex = 1\<rparr>"
  let ?f = "\<lparr>fl_request = AgendaRequest (js ''Plan''),
            fl_call = \<lparr>keyAttempt = 0, totalKeys = 2, apiKey = js ''key-1''\<rparr>,
            fl_closure = closure_of (the (run [ClickStart] (mounted [ex_alice] (js ''Plan'') [ex_k1, ex_k2]))),
            fl_session = 1, fl_signal = 1\<rparr>"
  have l: "0 < length (outstanding ?st)" by code_simp
  have o: "outstanding ?st ! 0 = ?f" by code_simp
  have oo: "outstanding ?st = [?f]" by code_simp
  have r: "orchestrator_of (fl_session ?f) ?st = Some ?m" by code_simp
  have ok: "mgr_ok ?m" by (simp add: mgr_ok_def)
  have ab: "controller_of (fl_signal ?f) ?st = Some False" by code_simp
  have ab': "abortController ?st = Some False" by code_simp
  have rl: "isRateLimitError (js ''429 Too Many Requests'')" by code_simp
  let ?st2 = "the (run [ClickStart, Tick, Response 0 (Failure (js ''429 Too Many Requests''))]
           (mounted [ex_alice] (js ''Plan'') [ex_k1, ex_k2]))"
  let ?m2 = "\<lparr>mgr_keys = [ex_k1, ex_k2], currentIndex = 0\<rparr>"
  let ?f2 = "?f\<lparr>fl_call := \<lparr>keyAttempt = 1, totalKeys = 2, apiKey = js ''key-2''\<rparr>\<rparr>"
  have l2: "0 < length (outstanding ?st2)" by code_simp
  have o2: "outstanding ?st2 ! 0 = ?f2" by code_simp
  have r2: "orchestrator_of (fl_session ?f2) ?st2 = Some ?m2" by code_simp
  have ok2: "mgr_ok ?m2" by (simp add: mgr_ok_def)
  have ab2: "controller_of (fl_signal ?f2) ?st2 = Some False" by code_simp
  have a1: "apiKeys ?st = [ex_k1, ex_k2]" by code_simp
  have a2: "apiKeys ?st2 = [ex_k1, ex_k2]" by code_simp
  have c2: "cl_apiKeys (fl_closure ?f2) = [ex_k1, ex_k2]" by code_simp
  note t1 = rate_limited_attempt_rotates [OF l o r ok ab rl]
  note t2 = rate_limited_attempt_rotates [OF l2 o2 r2 ok2 ab2 rl]
  have s0: "map (apiKey \<circ> fl_call) (outstanding ?st) = [js ''key-1'']"
    by (simp only: oo) simp
  have s1: "map key_status (apiKeys (on_response 0 (Failure (js ''429 Too Many Requests'')) ?st)) = [Active, Active]"
    using t1 a1 by (simp add: ex_k1_def ex_k2_def)
  have s2: "map (apiKey \<circ> fl_call) (outstanding (on_response 0 (Failure (js ''429 Too Many Requests'')) ?st)) = [js ''key-2'']"
    using t1 oo by (simp add: ex_k2_def)
  have s3: "map key_status (apiKeys (on_response 0 (Failure (js ''429 Too Many Requests'')) ?st2)) = [RateLimited, Active]"
    using t2 a2 c2 by (simp add: set_status_def ex_k1_def ex_k2_def)
  show ?thesis using s0 ab' rl s1 s2 s3 by simp
qed

text \<open>
  C5 as stated fails. With two keys, the first attempt of the agenda request fails with a
  429: the request goes on with the second key, and the first key is still active. With
  three keys, of which the first two fail with quota errors and the third succeeds, the
  agenda is built, the meeting runs on, and all three keys are still active.
\<close>

theorem rate_limited_attempt_marks_counterexample:
  "map_option (\<lambda>st. (map key_status (apiKeys st), map (apiKey \<circ> fl_call) (outstanding st)))
     (run [ClickStart, Tick, Response 0 (Failure (js ''429 Too Many Requests''))]
        (mounted [ex_alice] (js ''Plan'') [ex_k1, ex_k2]))
     = Some ([Active, Active], [js ''key-2''])
   \<and> map_option (\<lambda>st. (map key_status (apiKeys st), agenda (meetingStateRef st), isMeetingRunning st))
     (run [ClickStart, Tick, Response 0 (Failure (js ''RESOURCE_EXHAUSTED'')),
           Response 0 (Failure (js ''rate limit reached'')), Response 0 (Success (js ''1. Pricing''))]
        (mounted [ex_alice] (js ''Plan'') [ex_k1, ex_k2, ex_k3]))
     = Some ([Active, Active, Active], [js ''1. Pricing''], True)"
  by code_simp

text \<open>
  C2, on the code. The first attempt of the agenda request fails with an error that is not
  classified as rate limiting. The request fails at once, with the error that names the
  key, and no second key is drawn: so far as the claim says. But the catch block sets the
  key's status to rate-limited, not to invalid, and schedules its cooldown: when the timer
  fires the key is active again.
\<close>

theorem invalid_key_marked_rate_limited:
  "generateContentWithRetry [Failure (js ''API key not valid. Please pass a valid API key.''), Success (js ''x'')]
       False (new_ApiKeyManager [ex_k1, ex_k2])
     = (Throw (RateLimitError (js ''API call failed for key ...ey-1. It might be invalid.'') (js ''key-1'')),
        \<lparr>mgr_keys = [ex_k1, ex_k2], currentIndex = 1\<rparr>, [js ''key-1''])
   \<and> map_option (\<lambda>st. (map key_status (apiKeys st), cooldowns st, isMeetingRunning st,
                        outstanding st = [], app_error st))
       (run [ClickStart, Tick, Response 0 (Failure (js ''API key not valid. Please pass a valid API key.''))]
          (mounted [ex_alice] (js ''Plan'') [ex_k1, ex_k2]))
     = Some ([RateLimited, Active], [js ''k1''], False, True,
             Some (js ''An error occurred: API call failed for key ...ey-1. It might be invalid.''))
   \<and> map_option (\<lambda>st. map key_status (apiKeys st))
       (run [ClickStart, Tick, Response 0 (Failure (js ''API key not valid. Please pass a valid API key.'')),
             Cooldown (js ''k1'')]
          (mounted [ex_alice] (js ''Plan'') [ex_k1, ex_k2]))
     = Some [Active, Active]"
  by code_simp

section \<open>A tick that outlives its meeting\<close>

text \<open>
  A stop aborts the controller of the meeting and clears the two flags, but the tick that
  is suspended in a backend invocation goes on when the invocation settles: the signal is
  read only before an attempt (geminiService.ts, line 88), never after one, and the tick
  does not look at the running flag again. If a new meeting has been started by then, the
  tick of the old meeting continues beside the ticks of the new one: it writes to the
  transcript and the waiting flag of the new meeting, and it issues its next request with
  the signal of the new controller (lines 203 and 227 read the ref at that moment). The
  three evaluations below follow such runs. In each, two personas meet on the topic
  Plan with two active keys, and every agenda response lists two topics.
\<close>

text \<open>
  C6, on the code. The first meeting is stopped during its agenda request and a second
  one is started; its first tick issues its own agenda request. The agenda of the first
  meeting then arrives: its tick appends the agenda and the pending entry of its first
  turn, and issues the turn request under the new signal. Then the agenda of the second
  meeting arrives: its tick appends the agenda and a pending entry of its own. The
  meeting is running, and its transcript holds two pending entries, the first of them
  not last.
\<close>

theorem pending_entries_after_restart:
  "map_option (\<lambda>st. (map isThinking (chatHistory st), isMeetingRunning st,
                       map (\<lambda>f. (is_turn (fl_request f), fl_session f, fl_signal f)) (outstanding st)))
     (run [ClickStart, Tick, ClickStop, ClickStart, Tick, Response 0 (Success ex_agenda_text)]
        (mounted [ex_alice, ex_bob] (js ''Plan'') [ex_k1, ex_k2]))
     = Some ([False, False, True], True, [(False, 2, 2), (True, 1, 2)])
   \<and> map_option (\<lambda>st. (map isThinking (chatHistory st), pending_count (chatHistory st),
                       isMeetingRunning st,
                       map (\<lambda>f. (is_turn (fl_request f), fl_session f, fl_signal f)) (outstanding st)))
     (run [ClickStart, Tick, ClickStop, ClickStart, Tick, Response 0 (Success ex_agenda_text),
           Response 0 (Success ex_agenda_text)]
        (mounted [ex_alice, ex_bob] (js ''Plan'') [ex_k1, ex_k2]))
     = Some ([False, False, True, False, True], 2, True, [(True, 1, 2), (True, 2, 2)])"
  by code_simp

text \<open>
  C7, on the code. The first meeting is stopped during its first turn request and a second
  one is started. The user submits the interjection \<open>x\<close>; the first tick of the second
  meeting issues its agenda request and sets the waiting flag. The turn of the first
  meeting then completes: its tick clears the waiting flag. A second tick of the second
  meeting starts, finds the agenda still empty and issues a second agenda request. When
  the two agendas arrive, each tick goes on to a turn request, and both requests carry
  the interjection: it is in the prompts of two turns.
\<close>

theorem interjection_delivered_twice:
  "map_option (\<lambda>st. (map (\<lambda>f. (is_turn (fl_request f), req_ui (fl_request f), fl_session f))
                          (outstanding st),
                       userIntervention (meetingStateRef st)))
     (run [ClickStart, Tick, Response 0 (Success ex_agenda_text), ClickStop,
           ClickStart, Submit (js ''x''), Tick, Response 0 (Success (js ''late'')),
           Tick, Response 0 (Success ex_agenda_text), Response 0 (Success ex_agenda_text)]
        (mounted [ex_alice, ex_bob] (js ''Plan'') [ex_k1, ex_k2]))
     = Some ([(True, Some (js ''x''), 2), (True, Some (js ''x''), 2)], Some (js ''x''))"
  by code_simp

text \<open>
  C3, on the code. The first meeting is stopped during its agenda request and a second
  one is started; the agenda request of the second meeting fails with an error that is
  not a rate limit, which ends the second meeting. The agenda of the first meeting then
  arrives: its tick sets the waiting flag and issues its turn request, under the signal
  of the second meeting, which was never aborted. No meeting is running and the start
  button is enabled. A start now resets the meeting state and emits the opening notice,
  but it does not clear the waiting flag: no first tick is scheduled.
\<close>

theorem start_without_first_tick:
  "map_option (\<lambda>st. (isMeetingRunning st, isWaitingForAI st, canStartMeeting st,
                       map (\<lambda>f. (fl_session f, fl_signal f)) (outstanding st)))
     (run [ClickStart, Tick, ClickStop, ClickStart, Tick,
           Response 1 (Failure (js ''API key not valid'')), Response 0 (Success ex_agenda_text)]
        (mounted [ex_alice, ex_bob] (js ''Plan'') [ex_k1, ex_k2]))
     = Some (False, True, True, [(1, 2)])
   \<and> map_option (\<lambda>st. (isMeetingRunning st, chatHistory st = [opening_notice],
                       meetingStateRef st = initialMeetingState, isWaitingForAI st, tick_enabled st))
     (run [ClickStart, Tick, ClickStop, ClickStart, Tick,
           Response 1 (Failure (js ''API key not valid'')), Response 0 (Success ex_agenda_text),
           ClickStart]
        (mounted [ex_alice, ex_bob] (js ''Plan'') [ex_k1, ex_k2]))
     = Some (True, True, True, True, False)
   \<and> run [ClickStart, Tick, ClickStop, ClickStart, Tick,
           Response 1 (Failure (js ''API key not valid'')), Response 0 (Success ex_agenda_text),
           ClickStart, Tick]
        (mounted [ex_alice, ex_bob] (js ''Plan'') [ex_k1, ex_k2])
     = None"
  by code_simp

section \<open>Invariants of the controller in calm runs\<close>

lemma current_objects:
  "\<not> i < length (retired st) \<Longrightarrow> state_of i st = meetingStateRef st"
  "\<not> i < length (retired st) \<Longrightarrow> orchestrator_of i st = orchestratorRef st"
  "\<not> i < length (retired st) \<Longrightarrow> controller_of i st = abortController st"
  "\<not> i < length (retired st) \<Longrightarrow> set_state i ms st = st\<lparr>meetingStateRef := ms\<rparr>"
  "\<not> i < length (retired st) \<Longrightarrow> set_orchestrator i m st = st\<lparr>orchestratorRef := Some m\<rparr>"
  by (simp_all add: state_of_def orchestrator_of_def controller_of_def set_state_def
      set_orchestrator_def)

lemma no_pending_simps [simp]:
  "no_pending []"
  "no_pending (h @ h') = (no_pending h \<and> no_pending h')"
  "no_pending (m # h) = (\<not> isThinking m \<and> no_pending h)"
  "no_pending (not_thinking h)"
  by (auto simp: no_pending_def not_thinking_def)

lemma no_pending_butlast: "no_pending h \<Longrightarrow> no_pending (butlast h)"
  by (auto simp: no_pending_def dest: in_set_butlastD)

lemma not_thinking_idem [simp]: "not_thinking (not_thinking h) = not_thinking h"
  by (simp add: not_thinking_def)

lemma msg_flags [simp]:
  "\<not> isThinking (createOrchestratorMessage t)"
  "isThinking (thinkingMessage p)"
  "\<not> isThinking (finalMessage p t)"
  "\<not> isThinking (userMessage t)"
  by (simp_all add: createOrchestratorMessage_def thinkingMessage_def finalMessage_def userMessage_def)

lemma catch_handler_fields [simp]:
  "isMeetingRunning (catch_handler cl e st) = False"
  "isWaitingForAI (catch_handler cl e st) = False"
  "outstanding (catch_handler cl e st) = outstanding st"
  "abortController (catch_handler cl e st) = abortController st"
  "orchestratorRef (catch_handler cl e st) = orchestratorRef st"
  "retired (catch_handler cl e st) = retired st"
  "chatHistory (catch_handler cl e st) = not_thinking (chatHistory st)"
  "meetingStateRef (catch_handler cl e st) = meetingStateRef st"
  "personas (catch_handler cl e st) = personas st"
  "meetingTopic (catch_handler cl e st) = meetingTopic st"
  by (simp_all add: catch_handler_def Let_def split: thrown.splits option.splits)

lemma catch_handler_wf: "outstanding st = [] \<Longrightarrow> wf_state (catch_handler cl e st)"
  by (simp add: wf_state_def)

lemma gen_loop_aborted: "gen_loop True i n m = (r, m') \<Longrightarrow> \<exists>e. r = Inl e"
proof (induction "True" i n m arbitrary: r m' rule: gen_loop.induct)
  case (1 i n m)
  obtain k m1 where g: "getNextKey m = (k, m1)" by (cases "getNextKey m")
  show ?case
  proof (cases "i < n")
    case True
    show ?thesis
    proof (cases k)
      case None
      have "gen_loop True (i + 1) n m1 = (r, m')"
        using "1.prems" True g None by (subst (asm) gen_loop.simps) simp
      then show ?thesis using "1.hyps" [OF True _ refl, of m1] g None by simp
    next
      case (Some a)
      then show ?thesis using "1.prems" True g by (subst (asm) gen_loop.simps) auto
    qed
  next
    case False
    then show ?thesis using "1.prems" g by (subst (asm) gen_loop.simps) auto
  qed
qed

lemma gen_begin_aborted: "gen_begin True m = (r, m') \<Longrightarrow> \<exists>e. r = Inl e"
  by (auto simp: gen_begin_def Let_def split: if_splits dest: gen_loop_aborted)

lemma gen_resume_aborted: "gen_resume r True c m = (s, m') \<Longrightarrow> (\<exists>e. s = Throw e) \<or> (\<exists>t. s = Return t)"
  by (auto simp: gen_resume_def split: backend_result.splits if_splits prod.splits sum.splits
      dest: gen_loop_aborted)

lemma invoke_wf:
  assumes "i = length (retired st)"
    and "outstanding st = []" and "orchestratorRef st \<noteq> None" and "isWaitingForAI st"
    and "\<not> isMeetingRunning st \<longrightarrow> abortController st = Some True"
    and "if is_turn req then no_pending (butlast (chatHistory st)) else no_pending (chatHistory st)"
  shows "wf_state (invoke cl req i st)"
proof (cases "abortController st")
  case None
  then show ?thesis using assms(2) by (simp add: invoke_def catch_handler_wf)
next
  case (Some ab)
  obtain m where m: "orchestratorRef st = Some m" using assms(3) by auto
  obtain r m' where g: "gen_begin ab m = (r, m')" by (cases "gen_begin ab m")
  show ?thesis
  proof (cases r)
    case (Inl e)
    have "wf_state (catch_handler cl e (st\<lparr>orchestratorRef := Some m'\<rparr>))"
      by (rule catch_handler_wf) (simp add: assms(2))
    then show ?thesis using Some m g Inl assms(1) by (simp add: invoke_def current_objects)
  next
    case (Inr c)
    have "ab = False" using g Inr gen_begin_aborted [of m r m'] by (cases ab) auto
    then have run: "isMeetingRunning st" using assms(5) Some by auto
    show ?thesis using Some m g Inr run assms(1,2,4,6)
      by (simp add: invoke_def wf_state_def current_objects)
  qed
qed

lemma discuss_wf:
  assumes "i = length (retired st)"
    and "outstanding st = []" and "orchestratorRef st \<noteq> None"
    and "\<not> isMeetingRunning st \<longrightarrow> abortController st = Some True"
    and "no_pending (chatHistory st)"
  shows "wf_state (discuss cl i st)"
  unfolding discuss_def Let_def
  using assms
  by (auto intro!: invoke_wf catch_handler_wf simp: butlast_append current_objects)

lemma runMeetingStep_wf:
  assumes "wf_state st" and "tick_enabled st"
  shows "wf_state (runMeetingStep st)"
proof -
  have run: "isMeetingRunning st" and idle: "\<not> isWaitingForAI st"
    using assms(2) by (simp_all add: tick_enabled_def)
  have out: "outstanding st = []"
    using assms(1) run idle by (cases "outstanding st") (auto simp: wf_state_def)
  have np: "no_pending (chatHistory st)" using assms(1) out by (simp add: wf_state_def)
  consider (none) "orchestratorRef st = None"
    | (stopped) "orchestratorRef st \<noteq> None" "abortController st = Some True"
    | (agenda) "orchestratorRef st \<noteq> None" "abortController st \<noteq> Some True"
        "agenda (meetingStateRef st) = []"
    | (turn) "orchestratorRef st \<noteq> None" "abortController st \<noteq> Some True"
        "agenda (meetingStateRef st) \<noteq> []"
    by blast
  then show ?thesis
  proof cases
    case none
    then show ?thesis using assms(1) by (simp add: runMeetingStep_def)
  next
    case stopped
    then show ?thesis using run np out by (simp add: runMeetingStep_def wf_state_def)
  next
    case agenda
    have "wf_state (invoke (closure_of st) (AgendaRequest (meetingTopic st)) (length (retired st))
                      (st\<lparr>isWaitingForAI := True\<rparr>))"
      by (rule invoke_wf) (simp_all add: out agenda(1) run np)
    then show ?thesis using run agenda by (auto simp: runMeetingStep_def)
  next
    case turn
    have "wf_state (discuss (closure_of st) (length (retired st)) st)"
      by (rule discuss_wf) (simp_all add: out turn(1) run np)
    then show ?thesis using run turn by (auto simp: runMeetingStep_def)
  qed
qed

lemma continue_with_wf:
  assumes "fl_session f = length (retired st)"
    and "outstanding st = []" and "orchestratorRef st \<noteq> None"
    and "\<not> isMeetingRunning st \<longrightarrow> abortController st = Some True"
    and "\<not> isMeetingRunning st \<longrightarrow> \<not> isWaitingForAI st"
    and "if is_turn (fl_request f) then no_pending (butlast (chatHistory st))
         else no_pending (chatHistory st)"
  shows "wf_state (continue_with f t st)"
proof (cases "fl_request f")
  case (AgendaRequest topic)
  have "wf_state (discuss (fl_closure f) (fl_session f)
                (st\<lparr>meetingStateRef := (meetingStateRef st)
                        \<lparr>agenda := agenda_of_text t, currentAgendaIndex := 0, currentSpeakerIndex := - 1\<rparr>,
                    chatHistory := chatHistory st @
                        [createOrchestratorMessage
                           (js ''**Meeting Agenda:**'' @ [newline] @ join_lines (agenda_of_text t))],
                    isWaitingForAI := False\<rparr>))"
    using assms AgendaRequest by (intro discuss_wf) simp_all
  then show ?thesis using AgendaRequest assms(1)
    by (simp add: continue_with_def Let_def current_objects)
next
  case (TurnRequest p topic h item ui)
  then show ?thesis using assms by (simp add: continue_with_def wf_state_def current_objects)
next
  case (SummaryRequest topic h)
  then show ?thesis using assms by (simp add: continue_with_def wf_state_def)
qed

lemma remove_nth_single [simp]: "remove_nth 0 [x] = []"
  by (simp add: remove_nth_def)

lemma wf_state_outstanding:
  assumes "wf_state st" and "outstanding st \<noteq> []"
  obtains f where "outstanding st = [f]" and "fl_session f = length (retired st)"
    and "fl_signal f = length (retired st)"
  using assms by (cases "outstanding st") (auto simp: wf_state_def)

lemma on_response_wf:
  assumes "wf_state st" and "outstanding st \<noteq> []"
  shows "wf_state (on_response 0 r st)"
proof -
  obtain f where f: "outstanding st = [f]" and fs: "fl_session f = length (retired st)"
    and fg: "fl_signal f = length (retired st)"
    using assms by (rule wf_state_outstanding)
  obtain m where m: "orchestratorRef st = Some m" using assms f by (auto simp: wf_state_def)
  obtain ab where ab: "abortController st = Some ab" using assms f by (auto simp: wf_state_def)
  obtain s m' where g: "gen_resume r ab (fl_call f) m = (s, m')"
    by (cases "gen_resume r ab (fl_call f) m")
  have stopped: "\<not> isMeetingRunning st \<longrightarrow> ab = True"
    using assms(1) f ab by (simp add: wf_state_def)
  have idle: "\<not> isMeetingRunning st \<longrightarrow> \<not> isWaitingForAI st"
    using assms(1) by (simp add: wf_state_def)
  have hist: "if is_turn (fl_request f) then no_pending (butlast (chatHistory st))
         else no_pending (chatHistory st)"
    using assms(1) f by (simp add: wf_state_def)
  show ?thesis
  proof (cases s)
    case (Return t)
    have "wf_state (continue_with f t (st\<lparr>orchestratorRef := Some m', outstanding := []\<rparr>))"
      using stopped idle hist ab fs by (intro continue_with_wf) simp_all
    then show ?thesis using f m ab g Return fs fg
      by (simp add: on_response_def Let_def current_objects)
  next
    case (Throw e)
    have "wf_state (catch_handler (fl_closure f) e (st\<lparr>orchestratorRef := Some m', outstanding := []\<rparr>))"
      by (rule catch_handler_wf) simp
    then show ?thesis using f m ab g Throw fs fg
      by (simp add: on_response_def Let_def current_objects)
  next
    case (Await c)
    have "ab = False" using g Await gen_resume_aborted [of r "fl_call f" m s m'] by (cases ab) auto
    then have run: "isMeetingRunning st" using stopped by auto
    have "wf_state (st\<lparr>orchestratorRef := Some m', outstanding := [f\<lparr>fl_call := c\<rparr>]\<rparr>)"
      using assms(1) f run ab by (simp add: wf_state_def)
    then show ?thesis using f m ab g Await fs fg
      by (simp add: on_response_def Let_def current_objects)
  qed
qed

lemma mounted_wf: "wf_state (mounted ps topic ks)"
  by (simp add: wf_state_def mounted_def)

lemma dispatch_wf:
  assumes "dispatch ev st = Some st'" and "wf_state st"
    and "ev = ClickStart \<longrightarrow> outstanding st = []"
  shows "wf_state st'"
proof (cases ev)
  case ClickStart
  then have c: "\<not> isMeetingRunning st" "outstanding st = []" "st' = click_start st"
    using assms(1,3) by (auto simp: dispatch_def split: if_splits)
  then show ?thesis using assms(2)
    by (auto simp: click_start_def handleStartMeeting_def wf_state_def)
next
  case ClickStop
  then have "st' = handleStopMeeting st" using assms(1) by (auto simp: dispatch_def split: if_splits)
  then show ?thesis using assms(2)
    by (cases "outstanding st") (auto simp: handleStopMeeting_def wf_state_def split: option.splits)
next
  case ClickReset
  then have "st' = handleResetMeeting st" "\<not> isMeetingRunning st"
    using assms(1) by (auto simp: dispatch_def split: if_splits)
  then show ?thesis using assms(2)
    by (cases "outstanding st")
       (auto simp: handleResetMeeting_def handleStopMeeting_def wf_state_def split: option.splits)
next
  case (Submit t)
  then have c: "isMeetingRunning st" "st' = submit_interjection t st"
    using assms(1) by (auto simp: dispatch_def split: if_splits)
  show ?thesis
  proof (cases "trim t \<noteq> [] \<and> \<not> isWaitingForAI st")
    case True
    then have "outstanding st = []" using assms(2) c(1)
      by (cases "outstanding st") (auto simp: wf_state_def)
    then show ?thesis using True c assms(2)
      by (simp add: submit_interjection_def handleSendMessage_def wf_state_def)
  next
    case False
    then have "st' = st" using c by (auto simp: submit_interjection_def)
    then show ?thesis using assms(2) by simp
  qed
next
  case Tick
  then have "tick_enabled st" "st' = runMeetingStep st"
    using assms(1) by (auto simp: dispatch_def split: if_splits)
  then show ?thesis using assms(2) runMeetingStep_wf by simp
next
  case (Response k r)
  then have k: "k < length (outstanding st)" and s: "st' = on_response k r st"
    using assms(1) by (auto simp: dispatch_def split: if_splits)
  then have ne: "outstanding st \<noteq> []" by auto
  obtain f where "outstanding st = [f]" using assms(2) ne by (rule wf_state_outstanding)
  then have "k = 0" using k by simp
  then show ?thesis using assms(2) ne s on_response_wf by simp
next
  case (Cooldown kid)
  then have "st' = cooldown_fires kid st" using assms(1) by (auto simp: dispatch_def split: if_splits)
  then show ?thesis using assms(2)
    by (cases "outstanding st") (auto simp: cooldown_fires_def wf_state_def)
qed

lemma run_wf: "run evs st = Some st' \<Longrightarrow> calm evs st \<Longrightarrow> wf_state st \<Longrightarrow> wf_state st'"
proof (induction evs arbitrary: st)
  case Nil
  then show ?case by simp
next
  case (Cons ev evs)
  obtain st1 where d: "dispatch ev st = Some st1" and r: "run evs st1 = Some st'"
    using Cons.prems(1) by (auto split: option.splits)
  have c: "calm evs st1" and g: "ev = ClickStart \<longrightarrow> outstanding st = []"
    using Cons.prems(2) d by simp_all
  have "wf_state st1" using d Cons.prems(3) g by (rule dispatch_wf)
  then show ?case using Cons.IH r c by blast
qed

lemma catch_handler_settled: "outstanding st = [] \<Longrightarrow> settled (catch_handler cl e st)"
  by (simp add: settled_def)

lemma invoke_settled:
  assumes "i = length (retired st)"
    and "outstanding st = []" and "abortController st = Some True" and "orchestratorRef st \<noteq> None"
  shows "settled (invoke cl req i st)"
proof -
  obtain m where m: "orchestratorRef st = Some m" using assms(4) by auto
  obtain r m' where g: "gen_begin True m = (r, m')" by (cases "gen_begin True m")
  then obtain e where e: "r = Inl e" using gen_begin_aborted by blast
  have "settled (catch_handler cl e (st\<lparr>orchestratorRef := Some m'\<rparr>))"
    by (rule catch_handler_settled) (simp add: assms(2))
  then show ?thesis using assms(1,3) m g e by (simp add: invoke_def current_objects)
qed

lemma discuss_settled:
  assumes "i = length (retired st)"
    and "outstanding st = []" and "abortController st = Some True" and "orchestratorRef st \<noteq> None"
  shows "settled (discuss cl i st)"
  unfolding discuss_def Let_def using assms
  by (auto intro!: invoke_settled catch_handler_settled simp: current_objects)

lemma continue_with_settled:
  assumes "fl_session f = length (retired st)"
    and "outstanding st = []" and "abortController st = Some True" and "orchestratorRef st \<noteq> None"
    and "\<not> isMeetingRunning st"
    and "if is_turn (fl_request f) then no_pending (butlast (chatHistory st))
         else no_pending (chatHistory st)"
  shows "settled (continue_with f t st)"
proof (cases "fl_request f")
  case (AgendaRequest topic)
  have "settled (discuss (fl_closure f) (fl_session f)
                (st\<lparr>meetingStateRef := (meetingStateRef st)
                        \<lparr>agenda := agenda_of_text t, currentAgendaIndex := 0, currentSpeakerIndex := - 1\<rparr>,
                    chatHistory := chatHistory st @
                        [createOrchestratorMessage
                           (js ''**Meeting Agenda:**'' @ [newline] @ join_lines (agenda_of_text t))],
                    isWaitingForAI := False\<rparr>))"
    using assms by (intro discuss_settled) simp_all
  then show ?thesis using AgendaRequest assms(1)
    by (simp add: continue_with_def Let_def current_objects)
next
  case (TurnRequest p topic h item ui)
  then show ?thesis using assms by (simp add: continue_with_def settled_def current_objects)
next
  case (SummaryRequest topic h)
  then show ?thesis using assms by (simp add: continue_with_def settled_def)
qed

lemma on_response_settled:
  assumes "wf_state st" and "\<not> isMeetingRunning st" and "outstanding st \<noteq> []"
  shows "settled (on_response 0 r st)"
proof -
  obtain f where f: "outstanding st = [f]" and fs: "fl_session f = length (retired st)"
    and fg: "fl_signal f = length (retired st)"
    using assms(1,3) by (rule wf_state_outstanding)
  obtain m where m: "orchestratorRef st = Some m" using assms f by (auto simp: wf_state_def)
  have ab: "abortController st = Some True" using assms f by (auto simp: wf_state_def)
  obtain s m' where g: "gen_resume r True (fl_call f) m = (s, m')"
    by (cases "gen_resume r True (fl_call f) m")
  have hist: "if is_turn (fl_request f) then no_pending (butlast (chatHistory st))
         else no_pending (chatHistory st)"
    using assms(1) f by (simp add: wf_state_def)
  from gen_resume_aborted [OF g] show ?thesis
  proof
    assume "\<exists>e. s = Throw e"
    then obtain e where e: "s = Throw e" ..
    have "settled (catch_handler (fl_closure f) e (st\<lparr>orchestratorRef := Some m', outstanding := []\<rparr>))"
      by (rule catch_handler_settled) simp
    then show ?thesis using f m ab g e fs fg
      by (simp add: on_response_def Let_def current_objects)
  next
    assume "\<exists>t. s = Return t"
    then obtain t where t: "s = Return t" ..
    have "settled (continue_with f t (st\<lparr>orchestratorRef := Some m', outstanding := []\<rparr>))"
      using assms(2) hist ab fs by (intro continue_with_settled) simp_all
    then show ?thesis using f m ab g t fs fg
      by (simp add: on_response_def Let_def current_objects)
  qed
qed

text \<open>
  C8, as the code has it. A meeting is stopped while a generation request is in flight, in
  a calm run. The stop clears the running flag at once, and leaves the transcript and the
  request as they are: the request is not interrupted, and a pending entry stays until
  the backend invocation in flight settles. However it settles (with a response, a
  rate-limit error or any other error), the tick then ends with no pending entry in the
  transcript, the running flag false, nothing in flight and no tick scheduled. And in any
  state a second stop after a stop changes nothing.
\<close>

theorem stop_in_flight:
  assumes "run evs (mounted ps topic ks) = Some st" and "calm evs (mounted ps topic ks)"
    and "isMeetingRunning st" and "outstanding st \<noteq> []"
  shows "dispatch ClickStop st = Some (handleStopMeeting st)
     \<and> \<not> isMeetingRunning (handleStopMeeting st)
     \<and> chatHistory (handleStopMeeting st) = chatHistory st
     \<and> outstanding (handleStopMeeting st) = outstanding st
     \<and> length (outstanding st) = 1
     \<and> (\<forall>r. dispatch (Response 0 r) (handleStopMeeting st) = Some (on_response 0 r (handleStopMeeting st))
            \<and> no_pending (chatHistory (on_response 0 r (handleStopMeeting st)))
            \<and> \<not> isMeetingRunning (on_response 0 r (handleStopMeeting st))
            \<and> outstanding (on_response 0 r (handleStopMeeting st)) = []
            \<and> \<not> tick_enabled (on_response 0 r (handleStopMeeting st)))
     \<and> handleStopMeeting (handleStopMeeting st') = handleStopMeeting st'"
proof -
  have wf: "wf_state st" using assms(1,2) mounted_wf by (rule run_wf)
  have d: "dispatch ClickStop st = Some (handleStopMeeting st)"
    using assms(3) by (simp add: dispatch_def)
  then have wf': "wf_state (handleStopMeeting st)" using wf by (rule dispatch_wf) simp
  have nr: "\<not> isMeetingRunning (handleStopMeeting st)" by (simp add: handleStopMeeting_def)
  have h: "chatHistory (handleStopMeeting st) = chatHistory st" by (simp add: handleStopMeeting_def)
  have o: "outstanding (handleStopMeeting st) = outstanding st" by (simp add: handleStopMeeting_def)
  have one: "length (outstanding st) = 1"
    using wf assms(4) by (cases "outstanding st") (auto simp: wf_state_def)
  have out: "outstanding (handleStopMeeting st) \<noteq> []" using assms(4) o by simp
  have s: "settled (on_response 0 r (handleStopMeeting st))" for r
    using wf' nr out by (rule on_response_settled)
  have idem: "handleStopMeeting (handleStopMeeting st') = handleStopMeeting st'"
    by (simp add: handleStopMeeting_def split: option.splits)
  show ?thesis using d nr h o one out s idem
    by (auto simp: dispatch_def settled_def tick_enabled_def)
qed

theorem stop_in_flight_witness:
  "run [ClickStart, Tick, Response 0 (Success ex_agenda_text)]
       (mounted [ex_alice, ex_bob] (js ''Plan'') [ex_k1]) \<noteq> None
   \<and> calm [ClickStart, Tick, Response 0 (Success ex_agenda_text)]
       (mounted [ex_alice, ex_bob] (js ''Plan'') [ex_k1])
   \<and> isMeetingRunning (the (run [ClickStart, Tick, Response 0 (Success ex_agenda_text)]
        (mounted [ex_alice, ex_bob] (js ''Plan'') [ex_k1])))
   \<and> outstanding (the (run [ClickStart, Tick, Response 0 (Success ex_agenda_text)]
        (mounted [ex_alice, ex_bob] (js ''Plan'') [ex_k1]))) \<noteq> []
   \<and> pending_count (chatHistory (handleStopMeeting (the (run [ClickStart, Tick, Response 0 (Success ex_agenda_text)]
        (mounted [ex_alice, ex_bob] (js ''Plan'') [ex_k1]))))) = 1
   \<and> no_pending (chatHistory (on_response 0 (Success (js ''late''))
        (handleStopMeeting (the (run [ClickStart, Tick, Response 0 (Success ex_agenda_text)]
        (mounted [ex_alice, ex_bob] (js ''Plan'') [ex_k1]))))))
   \<and> \<not> isMeetingRunning (on_response 0 (Failure (js ''429''))
        (handleStopMeeting (the (run [ClickStart, Tick, Response 0 (Success ex_agenda_text)]
        (mounted [ex_alice, ex_bob] (js ''Plan'') [ex_k1])))))"
proof -
  let ?evs = "[ClickStart, Tick, Response 0 (Success ex_agenda_text)]"
  let ?M = "mounted [ex_alice, ex_bob] (js ''Plan'') [ex_k1]"
  let ?r = "run ?evs ?M"
  have a: "?r \<noteq> None" by code_simp
  then obtain st where st: "?r = Some st" by auto
  have q: "calm ?evs ?M" by code_simp
  have b: "isMeetingRunning (the ?r)" by code_simp
  have c: "outstanding (the ?r) \<noteq> []" by code_simp
  have d: "pending_count (chatHistory (handleStopMeeting (the ?r))) = 1" by code_simp
  have b': "isMeetingRunning st" and c': "outstanding st \<noteq> []" using b c st by simp_all
  from stop_in_flight [OF st q b' c'] a q b c d st show ?thesis by simp
qed

text \<open>
  C8 as stated fails. A meeting is stopped during its first turn request. Right after the
  stop the running flag is false, but the pending entry of the turn is still the last
  entry of the transcript, and the request is still in flight.
\<close>

theorem stop_leaves_pending_counterexample:
  "map_option (\<lambda>st. (map isThinking (chatHistory st), isMeetingRunning st, isWaitingForAI st,
                       length (outstanding st)))
     (run [ClickStart, Tick, Response 0 (Success ex_agenda_text), ClickStop]
        (mounted [ex_alice, ex_bob] (js ''Plan'') [ex_k1, ex_k2]))
     = Some ([False, False, True], False, False, 1)"
  by code_simp

subsection \<open>A meeting from start to end\<close>

lemma next_turn_index:
  fixes n :: nat
  assumes "0 < n"
  shows "(int n \<le> (if j = 0 then - 1 else int ((j - 1) mod n)) + 1) = (j mod n = 0 \<and> j \<noteq> 0)"
    and "j \<noteq> 0 \<Longrightarrow> j mod n = 0 \<Longrightarrow> (j - 1) div n + 1 = j div n"
    and "j \<noteq> 0 \<Longrightarrow> j mod n \<noteq> 0 \<Longrightarrow> (j - 1) div n = j div n \<and> (j - 1) mod n + 1 = j mod n"
proof -
  show "(int n \<le> (if j = 0 then - 1 else int ((j - 1) mod n)) + 1) = (j mod n = 0 \<and> j \<noteq> 0)"
  proof (cases j)
    case 0
    then show ?thesis using assms by simp
  next
    case (Suc k)
    have "k mod n < n" using assms by simp
    then have "(int n \<le> int (k mod n) + 1) = (Suc (k mod n) = n)" by linarith
    then show ?thesis using Suc by (simp add: mod_Suc)
  qed
  show "j \<noteq> 0 \<Longrightarrow> j mod n = 0 \<Longrightarrow> (j - 1) div n + 1 = j div n"
    by (cases j) (auto simp: div_Suc mod_Suc split: if_splits)
  show "j \<noteq> 0 \<Longrightarrow> j mod n \<noteq> 0 \<Longrightarrow> (j - 1) div n = j div n \<and> (j - 1) mod n + 1 = j mod n"
    by (cases j) (auto simp: div_Suc mod_Suc split: if_splits)
qed

lemma invoke_ok:
  assumes "abortController st = Some False" and "orchestratorRef st = Some mg" and "mgr_ok mg"
    and "i = length (retired st)" and "outstanding st = []"
  shows "invoke cl req i st =
     st\<lparr>orchestratorRef := Some (mg\<lparr>currentIndex := Suc (currentIndex mg) mod length (mgr_keys mg)\<rparr>),
        outstanding := [\<lparr>fl_request = req,
                         fl_call = \<lparr>keyAttempt = 0, totalKeys = length (mgr_keys mg),
                                    apiKey = key_value (mgr_keys mg ! currentIndex mg)\<rparr>,
                         fl_closure = cl, fl_session = i, fl_signal = i\<rparr>]\<rparr>"
  using assms by (simp add: invoke_def gen_begin_ok current_objects)

lemma mgr_ok_step: "mgr_ok mg \<Longrightarrow> mgr_ok (mg\<lparr>currentIndex := Suc (currentIndex mg) mod length (mgr_keys mg)\<rparr>)"
  by (simp add: mgr_ok_def)

lemma on_response_turn_ok:
  assumes "outstanding st = [f]" and "fl_request f = TurnRequest p tp h item ui"
    and "orchestratorRef st = Some mg" and "abortController st = Some ab"
    and "fl_session f = length (retired st)" and "fl_signal f = length (retired st)"
  shows "on_response 0 (Success r) st =
     st\<lparr>outstanding := [],
        meetingStateRef := (meetingStateRef st)\<lparr>userIntervention := None\<rparr>,
        chatHistory := butlast (chatHistory st) @ [finalMessage p r],
        isWaitingForAI := False\<rparr>"
  using assms by (simp add: on_response_def gen_resume_def continue_with_def Let_def current_objects)

lemma discuss_turn_gen:
  assumes ms: "meetingStateRef st =
      \<lparr>agenda = ag, currentAgendaIndex = ai, currentSpeakerIndex = si, userIntervention = None\<rparr>"
    and cl: "cl_personas cl = ps"
    and wrap: "wrap = (int (length ps) \<le> si + 1)"
    and s': "int s' = (if wrap then 0 else si + 1)"
    and ai': "ai' = (if wrap then ai + 1 else ai)"
    and more: "ai' < length ag" and range: "s' < length ps"
  shows "discuss cl (length (retired st)) st =
    invoke cl (TurnRequest (ps ! s') (cl_meetingTopic cl) (cl_chatHistory cl) (ag ! ai') None)
      (length (retired st))
      (st\<lparr>meetingStateRef := \<lparr>agenda = ag, currentAgendaIndex = ai',
                               currentSpeakerIndex = int s', userIntervention = None\<rparr>,
          isWaitingForAI := True,
          chatHistory := chatHistory st @ (if wrap then [topic_notice (ag ! ai')] else [])
                           @ [thinkingMessage (ps ! s')]\<rparr>)"
proof (cases wrap)
  case True
  then have w: "int (length ps) \<le> si + 1" using wrap by simp
  have "s' = 0" using s' True by simp
  then show ?thesis
    using True w ai' more range
    by (simp add: discuss_def Let_def ms cl topic_notice_def current_objects)
next
  case False
  then have w: "\<not> int (length ps) \<le> si + 1" using wrap by simp
  have "si + 1 = int s'" using s' False by simp
  then show ?thesis
    using False w ai' more range
    by (simp add: discuss_def Let_def ms cl current_objects)
qed

lemma discuss_turn:
  assumes bt: "between_turns ps topic ag j st"
    and cl: "cl_personas cl = ps" and ps: "ps \<noteq> []" and more: "j div length ps < length ag"
  shows "outstanding (discuss cl (length (retired st)) st) \<noteq> []
     \<and> between_turns ps topic ag (Suc j) (on_response 0 (Success r) (discuss cl (length (retired st)) st))
     \<and> chatHistory (on_response 0 (Success r) (discuss cl (length (retired st)) st)) = chatHistory st @ turns_text ps ag j [r]
     \<and> \<not> isWaitingForAI (on_response 0 (Success r) (discuss cl (length (retired st)) st))"
proof -
  let ?n = "length ps"
  have n: "0 < ?n" using ps by simp
  obtain mg where mg: "orchestratorRef st = Some mg" and ok: "mgr_ok mg"
    using bt by (auto simp: between_turns_def split: option.splits)
  have ab: "abortController st = Some False" and out: "outstanding st = []"
    and ms: "meetingStateRef st =
           \<lparr>agenda = ag, currentAgendaIndex = (j - 1) div ?n,
            currentSpeakerIndex = (if j = 0 then - 1 else int ((j - 1) mod ?n)),
            userIntervention = None\<rparr>"
    and np: "no_pending (chatHistory st)"
    and rest: "personas st = ps" "meetingTopic st = topic" "isMeetingRunning st"
    using bt by (simp_all add: between_turns_def)
  let ?wrap = "j mod ?n = 0 \<and> j \<noteq> 0"
  let ?p = "ps ! (j mod ?n)"
  let ?notice = "if ?wrap then [topic_notice (ag ! (j div ?n))] else []"
  let ?ms' = "\<lparr>agenda = ag, currentAgendaIndex = j div ?n,
            currentSpeakerIndex = int (j mod ?n), userIntervention = None\<rparr>"
  let ?st2 = "st\<lparr>meetingStateRef := ?ms', isWaitingForAI := True,
                chatHistory := chatHistory st @ ?notice @ [thinkingMessage ?p]\<rparr>"
  let ?req = "TurnRequest ?p (cl_meetingTopic cl) (cl_chatHistory cl) (ag ! (j div ?n)) None"
  have idx: "(if ?wrap then (j - 1) div ?n + 1 else (j - 1) div ?n) = j div ?n"
    using next_turn_index(2,3) [OF n, of j] by (cases "j = 0") auto
  have spk: "(if ?wrap then 0 else (if j = 0 then - 1 else int ((j - 1) mod ?n)) + 1) = int (j mod ?n)"
    using next_turn_index(3) [OF n, of j] by (cases "j = 0") auto
  have lt: "(j - 1) div ?n < j div ?n \<longleftrightarrow> ?wrap"
  proof (cases "?wrap")
    case True
    then have "(j - 1) div ?n + 1 = j div ?n" using next_turn_index(2) [OF n, of j] by simp
    then show ?thesis using True by linarith
  next
    case False
    then have "(j - 1) div ?n = j div ?n"
      using next_turn_index(3) [OF n, of j] by (cases "j = 0") auto
    then show ?thesis using False by simp
  qed
  have range: "j mod ?n < ?n" using n by simp
  have wr: "?wrap = (int ?n \<le> (if j = 0 then - 1 else int ((j - 1) mod ?n)) + 1)"
    using next_turn_index(1) [OF n, of j] by simp
  have spk': "int (j mod ?n) = (if ?wrap then 0 else (if j = 0 then - 1 else int ((j - 1) mod ?n)) + 1)"
    using spk by simp
  have d: "discuss cl (length (retired st)) st = invoke cl ?req (length (retired st)) ?st2"
    by (rule discuss_turn_gen [OF ms cl wr spk' idx [symmetric] more range])
  have ab2: "abortController ?st2 = Some False" and mg2: "orchestratorRef ?st2 = Some mg"
    using ab mg by simp_all
  let ?mg' = "mg\<lparr>currentIndex := Suc (currentIndex mg) mod length (mgr_keys mg)\<rparr>"
  let ?f = "\<lparr>fl_request = ?req,
            fl_call = \<lparr>keyAttempt = 0, totalKeys = length (mgr_keys mg),
                       apiKey = key_value (mgr_keys mg ! currentIndex mg)\<rparr>,
            fl_closure = cl,
            fl_session = length (retired st), fl_signal = length (retired st)\<rparr>"
  let ?st3 = "?st2\<lparr>orchestratorRef := Some ?mg', outstanding := [?f]\<rparr>"
  have d3: "discuss cl (length (retired st)) st = ?st3" unfolding d by (rule invoke_ok [OF ab2 mg2 ok]) (simp_all add: out)
  have r3: "on_response 0 (Success r) ?st3 =
     ?st3\<lparr>outstanding := [],
        meetingStateRef := (meetingStateRef ?st3)\<lparr>userIntervention := None\<rparr>,
        chatHistory := butlast (chatHistory ?st3) @ [finalMessage ?p r],
        isWaitingForAI := False\<rparr>"
  proof -
    have o3: "outstanding ?st3 = [?f]" by simp
    have q3: "fl_request ?f = ?req" by simp
    have m3: "orchestratorRef ?st3 = Some ?mg'" by simp
    have a3: "abortController ?st3 = Some False" using ab by simp
    have s3: "fl_session ?f = length (retired ?st3)" and g3: "fl_signal ?f = length (retired ?st3)"
      by simp_all
    show ?thesis by (rule on_response_turn_ok [OF o3 q3 m3 a3 s3 g3])
  qed
  have c1: "outstanding (discuss cl (length (retired st)) st) \<noteq> []" unfolding d3 by simp
  have c3: "chatHistory (on_response 0 (Success r) (discuss cl (length (retired st)) st)) = chatHistory st @ turns_text ps ag j [r]"
    unfolding d3 r3 by (simp add: butlast_append)
  have c4: "\<not> isWaitingForAI (on_response 0 (Success r) (discuss cl (length (retired st)) st))"
    unfolding d3 r3 by simp
  have np': "no_pending (chatHistory st @ turns_text ps ag j [r])"
    using np by (simp add: topic_notice_def)
  have c2: "between_turns ps topic ag (Suc j) (on_response 0 (Success r) (discuss cl (length (retired st)) st))"
    unfolding between_turns_def c3
    unfolding d3 r3
    using rest ab np' ok by (simp add: mgr_ok_step)
  show ?thesis using c1 c2 c3 c4 by blast
qed

lemma on_response_summary_ok:
  assumes "outstanding st = [f]" and "fl_request f = SummaryRequest tp h"
    and "orchestratorRef st = Some mg" and "abortController st = Some ab"
    and "fl_session f = length (retired st)" and "fl_signal f = length (retired st)"
  shows "on_response 0 (Success s) st =
     st\<lparr>outstanding := [],
        chatHistory := chatHistory st @ [summary_entry s, closing_notice],
        isMeetingRunning := False, isWaitingForAI := False\<rparr>"
  using assms
  by (simp add: on_response_def gen_resume_def continue_with_def summary_entry_def closing_notice_def
      Let_def current_objects)

lemma discuss_summary:
  assumes bt: "between_turns ps topic ag j st"
    and cl: "cl_personas cl = ps" and ps: "ps \<noteq> []" and fin: "\<not> j div length ps < length ag"
  shows "outstanding (discuss cl (length (retired st)) st) \<noteq> []
     \<and> chatHistory (on_response 0 (Success s) (discuss cl (length (retired st)) st)) =
         chatHistory st @ [complete_notice, summary_entry s, closing_notice]
     \<and> \<not> isMeetingRunning (on_response 0 (Success s) (discuss cl (length (retired st)) st))
     \<and> \<not> isWaitingForAI (on_response 0 (Success s) (discuss cl (length (retired st)) st))
     \<and> outstanding (on_response 0 (Success s) (discuss cl (length (retired st)) st)) = []"
proof -
  let ?n = "length ps"
  have n: "0 < ?n" using ps by simp
  obtain mg where mg: "orchestratorRef st = Some mg" and ok: "mgr_ok mg"
    using bt by (auto simp: between_turns_def split: option.splits)
  have ab: "abortController st = Some False" and out: "outstanding st = []"
    and ms: "meetingStateRef st =
           \<lparr>agenda = ag, currentAgendaIndex = (j - 1) div ?n,
            currentSpeakerIndex = (if j = 0 then - 1 else int ((j - 1) mod ?n)),
            userIntervention = None\<rparr>"
    using bt by (simp_all add: between_turns_def)
  let ?wrap = "j mod ?n = 0 \<and> j \<noteq> 0"
  have idx: "(if ?wrap then (j - 1) div ?n + 1 else (j - 1) div ?n) = j div ?n"
    using next_turn_index(2,3) [OF n, of j] by (cases "j = 0") auto
  have wr: "(int ?n \<le> (if j = 0 then - 1 else int ((j - 1) mod ?n)) + 1) = ?wrap"
    using next_turn_index(1) [OF n, of j] by simp
  let ?req = "SummaryRequest (cl_meetingTopic cl) (cl_chatHistory cl)"
  let ?st2 = "st\<lparr>chatHistory := chatHistory st @ [complete_notice], isWaitingForAI := True\<rparr>"
  have nxt: "length ag \<le> (if int ?n \<le> (if j = 0 then - 1 else int ((j - 1) mod ?n)) + 1
                          then (j - 1) div ?n + 1 else (j - 1) div ?n)"
    unfolding wr idx using fin by simp
  have so: "state_of (length (retired st)) st = meetingStateRef st"
    by (simp add: current_objects)
  have d: "discuss cl (length (retired st)) st = invoke cl ?req (length (retired st)) ?st2"
    unfolding discuss_def Let_def so ms cl MeetingState.simps
    using nxt by (simp only: if_True complete_notice_def)
  have ab2: "abortController ?st2 = Some False" and mg2: "orchestratorRef ?st2 = Some mg"
    using ab mg by simp_all
  let ?mg' = "mg\<lparr>currentIndex := Suc (currentIndex mg) mod length (mgr_keys mg)\<rparr>"
  let ?f = "\<lparr>fl_request = ?req,
            fl_call = \<lparr>keyAttempt = 0, totalKeys = length (mgr_keys mg),
                       apiKey = key_value (mgr_keys mg ! currentIndex mg)\<rparr>,
            fl_closure = cl,
            fl_session = length (retired st), fl_signal = length (retired st)\<rparr>"
  let ?st3 = "?st2\<lparr>orchestratorRef := Some ?mg', outstanding := [?f]\<rparr>"
  have d3: "discuss cl (length (retired st)) st = ?st3" unfolding d by (rule invoke_ok [OF ab2 mg2 ok]) (simp_all add: out)
  have r3: "on_response 0 (Success s) ?st3 =
     ?st3\<lparr>outstanding := [],
        chatHistory := chatHistory ?st3 @ [summary_entry s, closing_notice],
        isMeetingRunning := False, isWaitingForAI := False\<rparr>"
  proof -
    have o3: "outstanding ?st3 = [?f]" by simp
    have q3: "fl_request ?f = ?req" by simp
    have m3: "orchestratorRef ?st3 = Some ?mg'" by simp
    have a3: "abortController ?st3 = Some False" using ab by simp
    have s3: "fl_session ?f = length (retired ?st3)" and g3: "fl_signal ?f = length (retired ?st3)"
      by simp_all
    show ?thesis by (rule on_response_summary_ok [OF o3 q3 m3 a3 s3 g3])
  qed
  show ?thesis unfolding d3 r3 by simp
qed

lemma tick_discuss:
  assumes bt: "between_turns ps topic ag j st" and idle: "\<not> isWaitingForAI st" and ag: "ag \<noteq> []"
  shows "dispatch Tick st = Some (discuss (closure_of st) (length (retired st)) st)"
proof -
  have np: "no_pending (chatHistory st)" and run: "isMeetingRunning st"
    and out: "outstanding st = []" and ab: "abortController st = Some False"
    and orch: "orchestratorRef st \<noteq> None" and a: "agenda (meetingStateRef st) = ag"
    using bt by (auto simp: between_turns_def split: option.splits)
  have "chatHistory st = [] \<or> \<not> isThinking (last (chatHistory st))"
    using np by (cases "chatHistory st = []") (auto simp: no_pending_def)
  then have "tick_enabled st" using run idle by (simp add: tick_enabled_def)
  then show ?thesis using out run ab orch a ag
    by (auto simp: dispatch_def runMeetingStep_def)
qed

lemma run_turns:
  assumes "between_turns ps topic ag j st" and "\<not> isWaitingForAI st" and "ps \<noteq> []"
    and "j + length rs \<le> length ag * length ps"
  shows "\<exists>st'. run (concat (map (\<lambda>r. [Tick, Response 0 (Success r)]) rs)) st = Some st'
           \<and> between_turns ps topic ag (j + length rs) st' \<and> \<not> isWaitingForAI st'
           \<and> chatHistory st' = chatHistory st @ turns_text ps ag j rs"
  using assms
proof (induction rs arbitrary: j st)
  case Nil
  then show ?case by simp
next
  case (Cons r rs)
  have lt: "j < length ag * length ps" using Cons.prems(4) by simp
  then have more: "j div length ps < length ag" by (rule less_mult_imp_div_less)
  have ag: "ag \<noteq> []" using lt by auto
  have cl: "cl_personas (closure_of st) = ps"
    using Cons.prems(1) by (simp add: closure_of_def between_turns_def)
  let ?s1 = "discuss (closure_of st) (length (retired st)) st"
  let ?s2 = "on_response 0 (Success r) ?s1"
  note t = discuss_turn [OF Cons.prems(1) cl Cons.prems(3) more, of r]
  have d1: "dispatch Tick st = Some ?s1" by (rule tick_discuss [OF Cons.prems(1,2) ag])
  have d2: "dispatch (Response 0 (Success r)) ?s1 = Some ?s2" using t by (simp add: dispatch_def)
  have bt2: "between_turns ps topic ag (Suc j) ?s2" and idle2: "\<not> isWaitingForAI ?s2"
    and h2: "chatHistory ?s2 = chatHistory st @ turns_text ps ag j [r]"
    using t by simp_all
  have "Suc j + length rs \<le> length ag * length ps" using Cons.prems(4) by simp
  from Cons.IH [OF bt2 idle2 Cons.prems(3) this]
  obtain st' where r': "run (concat (map (\<lambda>r. [Tick, Response 0 (Success r)]) rs)) ?s2 = Some st'"
    and bt': "between_turns ps topic ag (Suc j + length rs) st'" and idle': "\<not> isWaitingForAI st'"
    and h': "chatHistory st' = chatHistory ?s2 @ turns_text ps ag (Suc j) rs"
    by blast
  have "run (concat (map (\<lambda>r. [Tick, Response 0 (Success r)]) (r # rs))) st = Some st'"
    using d1 d2 r' by simp
  moreover have "chatHistory st' = chatHistory st @ turns_text ps ag j (r # rs)"
    unfolding h' h2 by simp
  ultimately show ?case using bt' idle' by auto
qed

lemma agenda_phase:
  assumes ps: "ps \<noteq> []" and topic: "trim topic \<noteq> []" and ks: "filter key_usable ks \<noteq> []"
  shows "\<exists>st0 cl. run [ClickStart, Tick, Response 0 (Success a)] (mounted ps topic ks)
            = Some (discuss cl (length (retired st0)) st0)
         \<and> between_turns ps topic (agenda_of_text a) 0 st0 \<and> cl_personas cl = ps
         \<and> chatHistory st0 = [opening_notice, agenda_notice (agenda_of_text a)]"
proof -
  let ?M = "mounted ps topic ks"
  let ?mg = "new_ApiKeyManager ks"
  let ?st1 = "?M\<lparr>retired := [\<lparr>s_state = initialMeetingState, s_orchestrator = None,
                              s_controller = None\<rparr>],
                 app_error := None, abortController := Some False,
                 orchestratorRef := Some ?mg, meetingStateRef := initialMeetingState,
                 chatHistory := [opening_notice], isMeetingRunning := True\<rparr>"
  obtain k where "k \<in> set ks" "key_usable k" using ks by (auto simp: filter_empty_conv)
  then have act: "hasActiveKey ks" by (auto simp: hasActiveKey_def key_usable_def)
  have ok: "mgr_ok ?mg" using ks by (rule new_mgr_ok)
  have d1: "dispatch ClickStart ?M = Some ?st1"
    using ps topic act
    by (simp add: dispatch_def mounted_def click_start_def canStartMeeting_def
        handleStartMeeting_def opening_notice_def)
  let ?cl = "closure_of ?st1"
  let ?st1w = "?st1\<lparr>isWaitingForAI := True\<rparr>"
  have en: "tick_enabled ?st1" by (simp add: tick_enabled_def mounted_def opening_notice_def)
  have "runMeetingStep ?st1 = invoke ?cl (AgendaRequest topic) (length (retired ?st1)) ?st1w"
    by (simp add: runMeetingStep_def mounted_def initialMeetingState_def)
  also have "\<dots> = ?st1w\<lparr>orchestratorRef := Some (?mg\<lparr>currentIndex := Suc (currentIndex ?mg) mod length (mgr_keys ?mg)\<rparr>),
        outstanding := [\<lparr>fl_request = AgendaRequest topic,
                         fl_call = \<lparr>keyAttempt = 0, totalKeys = length (mgr_keys ?mg),
                                    apiKey = key_value (mgr_keys ?mg ! currentIndex ?mg)\<rparr>,
                         fl_closure = ?cl, fl_session = length (retired ?st1),
                         fl_signal = length (retired ?st1)\<rparr>]\<rparr>" (is "_ = ?st2")
    by (rule invoke_ok [OF _ _ ok]) (simp_all add: mounted_def)
  finally have step: "runMeetingStep ?st1 = ?st2" .
  have d2: "dispatch Tick ?st1 = Some ?st2"
    using en step by (simp add: dispatch_def mounted_def)
  let ?ag = "agenda_of_text a"
  let ?mg' = "?mg\<lparr>currentIndex := Suc (currentIndex ?mg) mod length (mgr_keys ?mg)\<rparr>"
  let ?st0 = "?st2\<lparr>orchestratorRef := Some ?mg', outstanding := [],
                   meetingStateRef := (meetingStateRef ?st2)
                        \<lparr>agenda := ?ag, currentAgendaIndex := 0, currentSpeakerIndex := - 1\<rparr>,
                   chatHistory := chatHistory ?st2 @ [agenda_notice ?ag],
                   isWaitingForAI := False\<rparr>"
  have r3: "on_response 0 (Success a) ?st2 = discuss ?cl (length (retired ?st0)) ?st0"
    by (simp add: on_response_def gen_resume_def continue_with_def Let_def agenda_notice_def
        current_objects)
  have d3: "dispatch (Response 0 (Success a)) ?st2 = Some (discuss ?cl (length (retired ?st0)) ?st0)"
    using r3 by (simp add: dispatch_def)
  have run: "run [ClickStart, Tick, Response 0 (Success a)] ?M
      = Some (discuss ?cl (length (retired ?st0)) ?st0)"
    using d1 d2 d3 by simp
  have bt: "between_turns ps topic ?ag 0 ?st0"
    using ok by (simp add: between_turns_def mounted_def initialMeetingState_def mgr_ok_step
        opening_notice_def agenda_notice_def)
  have cl: "cl_personas ?cl = ps" by (simp add: closure_of_def mounted_def)
  have h: "chatHistory ?st0 = [opening_notice, agenda_notice ?ag]" by simp
  show ?thesis using run bt cl h by blast
qed

lemma run_append_Some: "run xs st = Some st1 \<Longrightarrow> run ys st1 = r \<Longrightarrow> run (xs @ ys) st = r"
  by (simp add: run_append)

lemma meeting_run:
  assumes ps: "ps \<noteq> []" and topic: "trim topic \<noteq> []" and ks: "filter key_usable ks \<noteq> []"
    and len: "length rs = length (agenda_of_text a) * length ps"
  shows "\<exists>st'. run ([ClickStart, Tick, Response 0 (Success a)]
                     @ tl (concat (map (\<lambda>r. [Tick, Response 0 (Success r)]) (rs @ [s]))))
                  (mounted ps topic ks) = Some st'
           \<and> chatHistory st' =
               [opening_notice, agenda_notice (agenda_of_text a)]
               @ turns_text ps (agenda_of_text a) 0 rs
               @ [complete_notice, summary_entry s, closing_notice]
           \<and> \<not> isMeetingRunning st' \<and> \<not> isWaitingForAI st' \<and> outstanding st' = []"
proof -
  let ?ag = "agenda_of_text a"
  let ?step = "\<lambda>r. [Tick, Response 0 (Success r)]"
  obtain st0 cl where run0: "run [ClickStart, Tick, Response 0 (Success a)] (mounted ps topic ks)
            = Some (discuss cl (length (retired st0)) st0)"
    and bt0: "between_turns ps topic ?ag 0 st0" and cl: "cl_personas cl = ps"
    and h0: "chatHistory st0 = [opening_notice, agenda_notice ?ag]"
    using agenda_phase [OF ps topic ks, of a] by blast
  show ?thesis
  proof (cases rs)
    case Nil
    then have "length ?ag = 0" using len ps by simp
    then have fin: "\<not> 0 div length ps < length ?ag" by simp
    note t = discuss_summary [OF bt0 cl ps fin, of s]
    have "dispatch (Response 0 (Success s)) (discuss cl (length (retired st0)) st0) = Some (on_response 0 (Success s) (discuss cl (length (retired st0)) st0))"
      using t by (simp add: dispatch_def)
    then have r1: "run [Response 0 (Success s)] (discuss cl (length (retired st0)) st0) = Some (on_response 0 (Success s) (discuss cl (length (retired st0)) st0))"
      by simp
    have evs: "tl (concat (map ?step (rs @ [s]))) = [Response 0 (Success s)]" using Nil by simp
    have "run ([ClickStart, Tick, Response 0 (Success a)] @ tl (concat (map ?step (rs @ [s]))))
        (mounted ps topic ks) = Some (on_response 0 (Success s) (discuss cl (length (retired st0)) st0))"
      unfolding evs by (rule run_append_Some [OF run0 r1])
    moreover have "chatHistory (on_response 0 (Success s) (discuss cl (length (retired st0)) st0)) =
               [opening_notice, agenda_notice ?ag]
               @ turns_text ps ?ag 0 rs @ [complete_notice, summary_entry s, closing_notice]"
      using t h0 Nil by simp
    ultimately show ?thesis using t by blast
  next
    case (Cons r0 rs')
    then have "0 < length rs" by simp
    then have pos: "0 < length ?ag * length ps" unfolding len .
    then have more: "0 div length ps < length ?ag" by simp
    note t = discuss_turn [OF bt0 cl ps more, of r0]
    let ?s1 = "on_response 0 (Success r0) (discuss cl (length (retired st0)) st0)"
    have d1: "dispatch (Response 0 (Success r0)) (discuss cl (length (retired st0)) st0) = Some ?s1"
      using t by (simp add: dispatch_def)
    have bt1: "between_turns ps topic ?ag (Suc 0) ?s1" and idle1: "\<not> isWaitingForAI ?s1"
      and h1: "chatHistory ?s1 = chatHistory st0 @ turns_text ps ?ag 0 [r0]"
      using t by simp_all
    have "Suc 0 + length rs' \<le> length ?ag * length ps" using len Cons by simp
    from run_turns [OF bt1 idle1 ps this]
    obtain s2 where r2: "run (concat (map ?step rs')) ?s1 = Some s2"
      and bt2: "between_turns ps topic ?ag (Suc 0 + length rs') s2" and idle2: "\<not> isWaitingForAI s2"
      and h2: "chatHistory s2 = chatHistory ?s1 @ turns_text ps ?ag (Suc 0) rs'"
      by blast
    have total: "Suc 0 + length rs' = length ?ag * length ps" using len Cons by simp
    have fin: "\<not> (Suc 0 + length rs') div length ps < length ?ag"
      unfolding total using ps by simp
    have ag: "?ag \<noteq> []" using pos by auto
    have cl2: "cl_personas (closure_of s2) = ps"
      using bt2 by (simp add: closure_of_def between_turns_def)
    note u = discuss_summary [OF bt2 cl2 ps fin, of s]
    let ?s3 = "discuss (closure_of s2) (length (retired s2)) s2"
    let ?s4 = "on_response 0 (Success s) ?s3"
    have d3: "dispatch Tick s2 = Some ?s3" by (rule tick_discuss [OF bt2 idle2 ag])
    have d4: "dispatch (Response 0 (Success s)) ?s3 = Some ?s4" using u by (simp add: dispatch_def)
    have evs: "tl (concat (map ?step (rs @ [s]))) =
        [Response 0 (Success r0)] @ concat (map ?step rs') @ [Tick, Response 0 (Success s)]"
      using Cons by simp
    have r1: "run [Response 0 (Success r0)] (discuss cl (length (retired st0)) st0) = Some ?s1" using d1 by simp
    have r4: "run [Tick, Response 0 (Success s)] s2 = Some ?s4" using d3 d4 by simp
    have "run ([Response 0 (Success r0)] @ concat (map ?step rs') @ [Tick, Response 0 (Success s)])
        (discuss cl (length (retired st0)) st0) = Some ?s4"
      by (rule run_append_Some [OF r1]) (rule run_append_Some [OF r2 r4])
    then have "run ([ClickStart, Tick, Response 0 (Success a)] @ tl (concat (map ?step (rs @ [s]))))
        (mounted ps topic ks) = Some ?s4"
      unfolding evs by (rule run_append_Some [OF run0])
    moreover have "chatHistory ?s4 = [opening_notice, agenda_notice ?ag]
               @ turns_text ps ?ag 0 rs @ [complete_notice, summary_entry s, closing_notice]"
      using u h2 h1 h0 Cons by simp
    ultimately show ?thesis using u by blast
  qed
qed

lemma turns_text_within_block:
  assumes "p + length rs = length ps" and "0 < p"
  shows "turns_text ps ag (i * length ps + p) (rs @ rest) =
     map (\<lambda>(q, r). finalMessage q r) (zip (drop p ps) rs)
     @ turns_text ps ag ((i + 1) * length ps) rest"
  using assms
proof (induction rs arbitrary: p)
  case Nil
  then show ?case by (simp add: add.commute)
next
  case (Cons r rs)
  let ?n = "length ps"
  have p: "p < ?n" using Cons.prems(1) by simp
  have md: "(i * ?n + p) mod ?n = p" using p by simp
  have dr: "drop p ps = ps ! p # drop (Suc p) ps" using p by (simp add: Cons_nth_drop_Suc)
  have ih: "turns_text ps ag (i * ?n + Suc p) (rs @ rest) =
     map (\<lambda>(q, r). finalMessage q r) (zip (drop (Suc p) ps) rs)
     @ turns_text ps ag ((i + 1) * ?n) rest"
    using Cons.IH [of "Suc p"] Cons.prems(1) by simp
  show ?case using md Cons.prems(2) ih dr by simp
qed

lemma turns_text_block:
  assumes "length rs = length ps" and "ps \<noteq> []"
  shows "turns_text ps ag (i * length ps) (rs @ rest) =
     topic_block ps rs i (ag ! i) @ turns_text ps ag ((i + 1) * length ps) rest"
proof -
  let ?n = "length ps"
  have n: "0 < ?n" using assms(2) by simp
  obtain r rs' where rs: "rs = r # rs'" using assms n by (cases rs) auto
  obtain q ps' where ps: "ps = q # ps'" using assms(2) by (cases ps) auto
  have w: "turns_text ps ag (i * ?n + 1) (rs' @ rest) =
     map (\<lambda>(q, r). finalMessage q r) (zip (drop 1 ps) rs')
     @ turns_text ps ag ((i + 1) * ?n) rest"
    by (rule turns_text_within_block) (use assms(1) rs in simp_all)
  have z: "(i * ?n = 0) = (i = 0)" using n by simp
  have hd: "ps ! 0 = q" "drop 1 ps = ps'" using ps by simp_all
  have "turns_text ps ag (i * ?n) (rs @ rest) =
      (if i \<noteq> 0 then [topic_notice (ag ! i)] else []) @ [finalMessage q r]
      @ turns_text ps ag (Suc (i * ?n)) (rs' @ rest)"
    unfolding rs using n z hd(1) by simp
  also have "\<dots> = (if i \<noteq> 0 then [topic_notice (ag ! i)] else []) @ [finalMessage q r]
      @ map (\<lambda>(q, r). finalMessage q r) (zip ps' rs') @ turns_text ps ag ((i + 1) * ?n) rest"
    using w hd(2) by simp
  also have "\<dots> = topic_block ps rs i (ag ! i) @ turns_text ps ag ((i + 1) * ?n) rest"
    unfolding topic_block_def rs ps by simp
  finally show ?thesis .
qed

lemma turns_text_blocks:
  assumes "\<forall>rs \<in> set rss. length rs = length ps" and "ps \<noteq> []" and "i \<le> length rss"
  shows "turns_text ps ag (i * length ps) (concat (drop i rss)) =
     concat (map (\<lambda>k. topic_block ps (rss ! k) k (ag ! k)) [i..<length rss])"
  using assms(3)
proof (induction "length rss - i" arbitrary: i)
  case 0
  then show ?case by simp
next
  case (Suc d)
  then have i: "i < length rss" by simp
  have dr: "drop i rss = rss ! i # drop (Suc i) rss" using i by (simp add: Cons_nth_drop_Suc)
  have len: "length (rss ! i) = length ps" using assms(1) i by simp
  have ih: "turns_text ps ag (Suc i * length ps) (concat (drop (Suc i) rss)) =
     concat (map (\<lambda>k. topic_block ps (rss ! k) k (ag ! k)) [Suc i..<length rss])"
    using Suc.hyps(1) [of "Suc i"] Suc.hyps(2) i by simp
  have "turns_text ps ag (i * length ps) (concat (drop i rss)) =
      topic_block ps (rss ! i) i (ag ! i)
      @ turns_text ps ag ((i + 1) * length ps) (concat (drop (Suc i) rss))"
    unfolding dr concat.simps by (rule turns_text_block [OF len assms(2)])
  then show ?case using ih i by (simp add: upt_conv_Cons)
qed

lemma length_concat_uniform:
  "\<forall>rs \<in> set rss. length rs = n \<Longrightarrow> length (concat rss) = length rss * n"
  by (induction rss) simp_all

lemma entry_kinds [simp]:
  "isOrchestrator (createOrchestratorMessage t)"
  "isOrchestrator (topic_notice item)"
  "\<not> isOrchestrator (finalMessage p r)"
  by (simp_all add: createOrchestratorMessage_def topic_notice_def finalMessage_def thinkingMessage_def)

lemma topic_block_counts:
  assumes "length rs = length ps"
  shows "length (filter (\<lambda>m. \<not> isOrchestrator m) (topic_block ps rs i item)) = length ps"
    and "length (filter isOrchestrator (topic_block ps rs i item)) = (if i = 0 then 0 else 1)"
proof -
  have a: "filter (\<lambda>m. \<not> isOrchestrator m) (map (\<lambda>(q, r). finalMessage q r) (zip ps rs))
        = map (\<lambda>(q, r). finalMessage q r) (zip ps rs)"
    by (rule filter_True) auto
  have b: "filter isOrchestrator (map (\<lambda>(q, r). finalMessage q r) (zip ps rs)) = []"
    by (rule filter_False) auto
  show "length (filter (\<lambda>m. \<not> isOrchestrator m) (topic_block ps rs i item)) = length ps"
    using assms by (simp add: topic_block_def a)
  show "length (filter isOrchestrator (topic_block ps rs i item)) = (if i = 0 then 0 else 1)"
    by (simp add: topic_block_def b)
qed

lemma blocks_counts:
  assumes "\<forall>i < m. length (rss ! i) = length ps"
  shows "length (filter (\<lambda>x. \<not> isOrchestrator x)
            (concat (map (\<lambda>i. topic_block ps (rss ! i) i (ag ! i)) [0..<m]))) = m * length ps
       \<and> length (filter isOrchestrator
            (concat (map (\<lambda>i. topic_block ps (rss ! i) i (ag ! i)) [0..<m]))) = m - 1"
  using assms
proof (induction m)
  case 0
  then show ?case by simp
next
  case (Suc m)
  have len: "length (rss ! m) = length ps" using Suc.prems by simp
  have ih: "length (filter (\<lambda>x. \<not> isOrchestrator x)
            (concat (map (\<lambda>i. topic_block ps (rss ! i) i (ag ! i)) [0..<m]))) = m * length ps
       \<and> length (filter isOrchestrator
            (concat (map (\<lambda>i. topic_block ps (rss ! i) i (ag ! i)) [0..<m]))) = m - 1"
    using Suc.IH Suc.prems by simp
  show ?case using ih topic_block_counts [OF len, of m "ag ! m"] by auto
qed

text \<open>
  C1, as the code has it. A meeting is started with a non-empty persona list, a topic that
  is not blank and a usable key; every backend invocation succeeds at its first attempt,
  nobody interjects and nobody stops. The run goes through, and the transcript is: the
  opening notice, the agenda listing, then for each agenda topic one turn per persona in
  order, preceded by the topic's notice for every topic but the first, then the
  discussion-complete notice, the summary and the closing notice. With \<open>n\<close> personas and
  an agenda of \<open>m\<close> topics it has \<open>n * m\<close> persona turns and, besides the five fixed
  orchestrator entries, \<open>m - 1\<close> topic notices. The meeting has then stopped, with nothing
  in flight and no tick due.
\<close>

theorem meeting_transcript:
  assumes ps: "ps \<noteq> []" and topic: "trim topic \<noteq> []" and ks: "filter key_usable ks \<noteq> []"
    and len: "length rss = length (agenda_of_text a)"
    and lens: "\<forall>rs \<in> set rss. length rs = length ps"
  shows "\<exists>st'. run (meeting_events a rss s) (mounted ps topic ks) = Some st'
      \<and> chatHistory st' = expected_transcript ps (agenda_of_text a) rss s
      \<and> \<not> isMeetingRunning st' \<and> \<not> tick_enabled st' \<and> outstanding st' = []
      \<and> length (filter (\<lambda>m. \<not> isOrchestrator m) (chatHistory st'))
           = length ps * length (agenda_of_text a)
      \<and> length (filter isOrchestrator (chatHistory st')) = 5 + (length (agenda_of_text a) - 1)"
proof -
  let ?ag = "agenda_of_text a"
  have total: "length (concat rss) = length ?ag * length ps"
    using length_concat_uniform [OF lens] len by simp
  obtain st' where run: "run ([ClickStart, Tick, Response 0 (Success a)]
                     @ tl (concat (map (\<lambda>r. [Tick, Response 0 (Success r)]) (concat rss @ [s]))))
                  (mounted ps topic ks) = Some st'"
    and h: "chatHistory st' = [opening_notice, agenda_notice ?ag]
               @ turns_text ps ?ag 0 (concat rss)
               @ [complete_notice, summary_entry s, closing_notice]"
    and fin: "\<not> isMeetingRunning st'" "outstanding st' = []"
    using meeting_run [OF ps topic ks total, of s] by blast
  have "turns_text ps ?ag (0 * length ps) (concat (drop 0 rss)) =
     concat (map (\<lambda>k. topic_block ps (rss ! k) k (?ag ! k)) [0..<length rss])"
    by (rule turns_text_blocks [OF lens ps]) simp
  then have blocks: "turns_text ps ?ag 0 (concat rss) =
     concat (map (\<lambda>k. topic_block ps (rss ! k) k (?ag ! k)) [0..<length ?ag])"
    using len by simp
  have h': "chatHistory st' = expected_transcript ps ?ag rss s"
    unfolding h blocks expected_transcript_def by simp
  have "\<forall>i < length ?ag. length (rss ! i) = length ps" using lens len by simp
  note c = blocks_counts [OF this, of ?ag]
  have c1: "length (filter (\<lambda>m. \<not> isOrchestrator m) (chatHistory st')) = length ps * length ?ag"
    unfolding h' expected_transcript_def using c
    by (simp add: opening_notice_def agenda_notice_def complete_notice_def summary_entry_def
        closing_notice_def)
  have c2: "length (filter isOrchestrator (chatHistory st')) = 5 + (length ?ag - 1)"
    unfolding h' expected_transcript_def using c
    by (simp add: opening_notice_def agenda_notice_def complete_notice_def summary_entry_def
        closing_notice_def)
  have "\<not> tick_enabled st'" using fin by (simp add: tick_enabled_def)
  then show ?thesis using run h' fin c1 c2 unfolding meeting_events_def by blast
qed

theorem meeting_transcript_witness:
  "[ex_alice, ex_bob] \<noteq> [] \<and> trim (js ''Plan'') \<noteq> [] \<and> filter key_usable [ex_k1] \<noteq> []
   \<and> agenda_of_text (js ''1. Pricing'' @ [newline] @ js ''2. Timeline'') = [js ''1. Pricing'', js ''2. Timeline'']
   \<and> map length [[js ''a1'', js ''b1''], [js ''a2'', js ''b2'']] = [length [ex_alice, ex_bob], length [ex_alice, ex_bob]]
   \<and> map_option chatHistory
        (run (meeting_events (js ''1. Pricing'' @ [newline] @ js ''2. Timeline'')
                [[js ''a1'', js ''b1''], [js ''a2'', js ''b2'']] (js ''sum''))
           (mounted [ex_alice, ex_bob] (js ''Plan'') [ex_k1]))
      = Some [opening_notice, agenda_notice [js ''1. Pricing'', js ''2. Timeline''],
              finalMessage ex_alice (js ''a1''), finalMessage ex_bob (js ''b1''),
              topic_notice (js ''2. Timeline''),
              finalMessage ex_alice (js ''a2''), finalMessage ex_bob (js ''b2''),
              complete_notice, summary_entry (js ''sum''), closing_notice]"
proof -
  let ?a = "js ''1. Pricing'' @ [newline] @ js ''2. Timeline''"
  let ?rss = "[[js ''a1'', js ''b1''], [js ''a2'', js ''b2'']]"
  have p: "[ex_alice, ex_bob] \<noteq> []" by simp
  have t: "trim (js ''Plan'') \<noteq> []" by code_simp
  have k: "filter key_usable [ex_k1] \<noteq> []" by simp
  have ag: "agenda_of_text ?a = [js ''1. Pricing'', js ''2. Timeline'']" by code_simp
  have len: "length ?rss = length (agenda_of_text ?a)" unfolding ag by simp
  have lens: "\<forall>rs \<in> set ?rss. length rs = length [ex_alice, ex_bob]" by simp
  from meeting_transcript [OF p t k len lens, of "(js ''sum'')"]
  obtain st' where run: "run (meeting_events ?a ?rss (js ''sum'')) (mounted [ex_alice, ex_bob] (js ''Plan'') [ex_k1]) = Some st'"
    and h: "chatHistory st' = expected_transcript [ex_alice, ex_bob] (agenda_of_text ?a) ?rss (js ''sum'')"
    by blast
  have "expected_transcript [ex_alice, ex_bob] [js ''1. Pricing'', js ''2. Timeline''] ?rss (js ''sum'') =
      [opening_notice, agenda_notice [js ''1. Pricing'', js ''2. Timeline''],
              finalMessage ex_alice (js ''a1''), finalMessage ex_bob (js ''b1''),
              topic_notice (js ''2. Timeline''),
              finalMessage ex_alice (js ''a2''), finalMessage ex_bob (js ''b2''),
              complete_notice, summary_entry (js ''sum''), closing_notice]"
    by (simp add: expected_transcript_def topic_block_def upt_rec)
  then show ?thesis using p t k ag run h by simp
qed

text \<open>
  C1 as stated fails on the specification's own example: two personas and the agenda
  Pricing, Timeline. The first topic gets no notice of its own: the first persona's turn
  follows the agenda listing directly, in the same tick. The transcript has one topic
  notice, not two, and six orchestrator entries in all.
\<close>

theorem meeting_transcript_counterexample:
  "agenda_of_text (js ''1. Pricing'' @ [newline] @ js ''2. Timeline'') = [js ''1. Pricing'', js ''2. Timeline'']
   \<and> map_option (\<lambda>st. map msg_text (chatHistory st))
        (run (meeting_events (js ''1. Pricing'' @ [newline] @ js ''2. Timeline'')
                [[js ''a1'', js ''b1''], [js ''a2'', js ''b2'']] (js ''sum''))
           (mounted [ex_alice, ex_bob] (js ''Plan'') [ex_k1]))
      = Some [js ''The meeting will now begin. The AI Orchestrator is generating an agenda...'',
              js ''**Meeting Agenda:**'' @ [newline] @ js ''1. Pricing'' @ [newline] @ js ''2. Timeline'',
              js ''a1'', js ''b1'',
              js ''Let's now discuss: **2. Timeline**'',
              js ''a2'', js ''b2'',
              js ''The discussion is complete. The AI Orchestrator will now summarize.'',
              js ''**Meeting Summary & Action Items:**'' @ [newline] @ js ''sum'',
              (js ''The meeting has concluded.'')]
   \<and> map_option (\<lambda>st. length (filter isOrchestrator (chatHistory st)))
        (run (meeting_events (js ''1. Pricing'' @ [newline] @ js ''2. Timeline'')
                [[js ''a1'', js ''b1''], [js ''a2'', js ''b2'']] (js ''sum''))
           (mounted [ex_alice, ex_bob] (js ''Plan'') [ex_k1]))
      = Some 6"
  by code_simp

end
